theory Spec2Isabelle
  imports Main "HOL-Library.Word"
begin

section \<open>ApplyBucketsWork: applying the buckets of a history archive state\<close>

text \<open>
  A shallow embedding of \<^verbatim>\<open>src/catchup/ApplyBucketsWork.cpp\<close>. The member
  functions of \<^verbatim>\<open>ApplyBucketsWork\<close> become functions on an explicit state; the
  collaborators whose code lives in other files (the hex codec, the bucket store, the
  applicator, the bucket manager's \<^verbatim>\<open>assumeState\<close> and the generic \<^verbatim>\<open>Work\<close>
  driver) are parameters of an environment or are modelled from the specification, and
  are marked as such.
\<close>

subsection \<open>Data\<close>

text \<open>\<^verbatim>\<open>uint256\<close>: the 256-bit binary hash of a bucket.\<close>

type_synonym uint256 = "256 word"

text \<open>
  Modelled from the spec: \<^verbatim>\<open>isZero\<close> is declared outside
  \<^verbatim>\<open>ApplyBucketsWork.cpp\<close>; it recognises the reserved all-zero hash.
\<close>

definition isZero :: "uint256 \<Rightarrow> bool" where
  "isZero b = (b = 0)"

text \<open>
  Everything that can end a call early: the failed \<^verbatim>\<open>assert(b)\<close> of
  \<^verbatim>\<open>getBucket\<close> (the specification's MissingBucketError), the
  \<^verbatim>\<open>std::out_of_range\<close> of \<^verbatim>\<open>vector::at\<close>, and a failure of the hex decoder.
\<close>

datatype error = MissingBucketError | OutOfRange | HexDecodeError

datatype WorkState = WORK_PENDING | WORK_RUNNING | WORK_SUCCESS

text \<open>
  A bucket is immutable and identified by its hash; \<open>'e\<close> is the type of bucket
  entries. A \<^verbatim>\<open>shared_ptr\<close> to a bucket is the bucket itself, a null pointer is
  \<open>None\<close>.
\<close>

record 'e Bucket =
  getHash :: uint256
  getEntries :: "'e list"

text \<open>
  Modelled from the spec: the default constructor of \<^verbatim>\<open>Bucket\<close> (in
  \<^verbatim>\<open>bucket/Bucket.h\<close>) gives the canonical empty bucket, which has the all-zero
  hash and no entries.
\<close>

definition emptyBucket :: "'e Bucket" where
  "emptyBucket = \<lparr>getHash = 0, getEntries = []\<rparr>"

record 'e BucketLevel =
  getCurr :: "'e Bucket"
  getSnap :: "'e Bucket"

text \<open>
  The entry of one level in a \<^verbatim>\<open>HistoryArchiveState\<close>: the hex text of the
  snap and the curr hash. (The \<^verbatim>\<open>next\<close> field is not read by this file.)
\<close>

record HistoryStateBucket =
  curr :: string
  snap :: string

record HistoryArchiveState =
  currentBuckets :: "HistoryStateBucket list"

text \<open>
  Modelled from the spec: \<^verbatim>\<open>BucketApplicator\<close> (in
  \<^verbatim>\<open>bucket/BucketApplicator.h\<close>) is a resumable cursor over a bucket's entries,
  true while entries remain, whose \<^verbatim>\<open>advance\<close> applies one bounded chunk of them to
  the database. The chunk size is a parameter.
\<close>

record 'e BucketApplicator =
  remaining :: "'e list"

text \<open>
  Modelled from the spec: the constructor starts the cursor at the first entry of the
  bucket, and the conversion to \<^verbatim>\<open>bool\<close> tells whether entries remain.
\<close>

definition newBucketApplicator :: "'e Bucket \<Rightarrow> 'e BucketApplicator" where
  "newBucketApplicator b = \<lparr>remaining = getEntries b\<rparr>"

definition applicatorBool :: "'e BucketApplicator \<Rightarrow> bool" where
  "applicatorBool a = (remaining a \<noteq> [])"

text \<open>The two lookups \<^verbatim>\<open>getBucket\<close> can make, and the debug log lines of the file.\<close>

datatype lookup = PoolFind string | StoreGet uint256

datatype logline =
    StartingSnap nat string
  | StartingCurr nat string
  | StartingNextLevel nat
  | DoneRestartingMerges

text \<open>
  The environment of a run: what the work reads and never writes. \<open>mBuckets\<close> and
  \<open>mApplyState\<close> are the const-reference members (\<open>mBuckets\<close> maps a hash text
  to a \<^verbatim>\<open>shared_ptr\<close>, which may be null); \<open>kNumLevels\<close> is
  \<^verbatim>\<open>BucketList::kNumLevels\<close>; \<open>hexToBin256\<close> and \<open>binToHex\<close> are the codec of
  \<^verbatim>\<open>crypto/Hex.h\<close> (\<open>None\<close> when the decoder throws); \<open>getBucketByHash\<close> is the
  bucket manager's store (\<open>None\<close> for the null pointer it returns on a miss).
\<close>

record 'e env =
  kNumLevels :: nat
  hexToBin256 :: "string \<Rightarrow> uint256 option"
  binToHex :: "uint256 \<Rightarrow> string"
  getBucketByHash :: "uint256 \<Rightarrow> 'e Bucket option"
  chunkSize :: nat
  mBuckets :: "string \<rightharpoonup> 'e Bucket option"
  mApplyState :: HistoryArchiveState

text \<open>
  The mutable state: the members of \<^verbatim>\<open>ApplyBucketsWork\<close>, the three meters, and
  the parts of the application the work writes: the levels of the live bucket list, the
  database (the entries applied so far), the arguments of the calls of
  \<^verbatim>\<open>assumeState\<close>, the lookups made and the debug log.
\<close>

record 'e state =
  mApplying :: bool
  mLevel :: nat
  mSnapBucket :: "'e Bucket option"
  mCurrBucket :: "'e Bucket option"
  mSnapApplicator :: "'e BucketApplicator option"
  mCurrApplicator :: "'e BucketApplicator option"
  mBucketApplyStart :: nat
  mBucketApplySuccess :: nat
  mBucketApplyFailure :: nat
  bucketList :: "'e BucketLevel list"
  database :: "'e list"
  assumed :: "HistoryArchiveState list"
  lookups :: "lookup list"
  clog :: "logline list"

subsection \<open>Helpers for the C++ the file relies on\<close>

text \<open>\<^verbatim>\<open>std::vector::at\<close>: a checked read.\<close>

definition vector_at :: "'a list \<Rightarrow> nat \<Rightarrow> error + 'a" where
  "vector_at xs i = (if i < length xs then Inr (xs ! i) else Inl OutOfRange)"

text \<open>Decrementing a \<^verbatim>\<open>size_t\<close>: 0 wraps to the largest value.\<close>

definition size_t_dec :: "nat \<Rightarrow> nat" where
  "size_t_dec n = (if n = 0 then 2 ^ 64 - 1 else n - 1)"

text \<open>\<^verbatim>\<open>p && *p\<close> for an applicator pointer.\<close>

definition hasWork :: "'e BucketApplicator option \<Rightarrow> bool" where
  "hasWork p = (case p of None \<Rightarrow> False | Some a \<Rightarrow> applicatorBool a)"

text \<open>
  Modelled from the spec: \<^verbatim>\<open>BucketApplicator::advance\<close> applies the next chunk of
  at most \<open>chunkSize\<close> entries to the database.
\<close>

definition advance :: "'e env \<Rightarrow> 'e BucketApplicator \<Rightarrow> 'e list \<Rightarrow> 'e BucketApplicator \<times> 'e list" where
  "advance env a db =
     (\<lparr>remaining = drop (chunkSize env) (remaining a)\<rparr>,
      db @ take (chunkSize env) (remaining a))"

subsection \<open>The member functions\<close>

text \<open>\<^verbatim>\<open>getBucketLevel\<close>: \<^verbatim>\<open>BucketList::getLevel\<close> is a checked read of the levels.\<close>

definition getBucketLevel :: "'e state \<Rightarrow> nat \<Rightarrow> error + 'e BucketLevel" where
  "getBucketLevel s level = vector_at (bucketList s) level"

text \<open>
  \<^verbatim>\<open>getBucket\<close>, with the lookups it makes, in order. The all-zero hash gives a new
  empty bucket; any other hash is looked up in \<open>mBuckets\<close> by its text and, when the
  text is not a key there, in the store by its binary value; \<^verbatim>\<open>assert(b)\<close> fails
  on a null pointer, wherever it came from.
\<close>

definition getBucket :: "'e env \<Rightarrow> string \<Rightarrow> lookup list \<times> (error + 'e Bucket)" where
  "getBucket env hash =
     (case hexToBin256 env hash of
        None \<Rightarrow> ([], Inl HexDecodeError)
      | Some bin \<Rightarrow>
          (case (if isZero bin then ([], Some emptyBucket)
                 else (case mBuckets env hash of
                         Some p \<Rightarrow> ([PoolFind hash], p)
                       | None \<Rightarrow> ([PoolFind hash, StoreGet bin], getBucketByHash env bin))) of
             (tr, None) \<Rightarrow> (tr, Inl MissingBucketError)
           | (tr, Some b) \<Rightarrow> (tr, Inr b)))"

definition onReset :: "'e env \<Rightarrow> 'e state \<Rightarrow> 'e state" where
  "onReset env s =
     s\<lparr>mLevel := size_t_dec (kNumLevels env),
       mApplying := False,
       mSnapBucket := None,
       mCurrBucket := None,
       mSnapApplicator := None,
       mCurrApplicator := None\<rparr>"

text \<open>The two blocks of \<^verbatim>\<open>onStart\<close>, each run when its condition holds.\<close>

definition startSnap :: "'e env \<Rightarrow> HistoryStateBucket \<Rightarrow> 'e state \<Rightarrow> error + 'e state" where
  "startSnap env i s =
     (case getBucket env (snap i) of
        (tr, Inl e) \<Rightarrow> Inl e
      | (tr, Inr b) \<Rightarrow>
          Inr (s\<lparr>mSnapBucket := Some b,
                 mSnapApplicator := Some (newBucketApplicator b),
                 clog := clog s @ [StartingSnap (mLevel s) (snap i)],
                 mApplying := True,
                 mBucketApplyStart := mBucketApplyStart s + 1,
                 lookups := lookups s @ tr\<rparr>))"

definition startCurr :: "'e env \<Rightarrow> HistoryStateBucket \<Rightarrow> 'e state \<Rightarrow> error + 'e state" where
  "startCurr env i s =
     (case getBucket env (curr i) of
        (tr, Inl e) \<Rightarrow> Inl e
      | (tr, Inr b) \<Rightarrow>
          Inr (s\<lparr>mCurrBucket := Some b,
                 mCurrApplicator := Some (newBucketApplicator b),
                 clog := clog s @ [StartingCurr (mLevel s) (curr i)],
                 mApplying := True,
                 mBucketApplyStart := mBucketApplyStart s + 1,
                 lookups := lookups s @ tr\<rparr>))"

definition onStart :: "'e env \<Rightarrow> 'e state \<Rightarrow> error + 'e state" where
  "onStart env s =
     (case getBucketLevel s (mLevel s) of
        Inl e \<Rightarrow> Inl e
      | Inr level \<Rightarrow>
          (case vector_at (currentBuckets (mApplyState env)) (mLevel s) of
             Inl e \<Rightarrow> Inl e
           | Inr i \<Rightarrow>
               (case (if mApplying s \<or> snap i \<noteq> binToHex env (getHash (getSnap level))
                      then startSnap env i s else Inr s) of
                  Inl e \<Rightarrow> Inl e
                | Inr s1 \<Rightarrow>
                    if mApplying s1 \<or> curr i \<noteq> binToHex env (getHash (getCurr level))
                    then startCurr env i s1 else Inr s1)))"

definition onRun :: "'e env \<Rightarrow> 'e state \<Rightarrow> 'e state" where
  "onRun env s =
     (if hasWork (mSnapApplicator s) then
        (case mSnapApplicator s of
           None \<Rightarrow> s
         | Some a \<Rightarrow> (case advance env a (database s) of
                       (a', db') \<Rightarrow> s\<lparr>mSnapApplicator := Some a', database := db'\<rparr>))
      else if hasWork (mCurrApplicator s) then
        (case mCurrApplicator s of
           None \<Rightarrow> s
         | Some a \<Rightarrow> (case advance env a (database s) of
                       (a', db') \<Rightarrow> s\<lparr>mCurrApplicator := Some a', database := db'\<rparr>))
      else s)"

text \<open>
  \<^verbatim>\<open>setSnap\<close> and \<^verbatim>\<open>setCurr\<close> of \<^verbatim>\<open>BucketLevel\<close> rebind one bucket of
  the level at the cursor.
\<close>

definition setSnap :: "nat \<Rightarrow> 'e Bucket \<Rightarrow> 'e state \<Rightarrow> 'e state" where
  "setSnap l b s = s\<lparr>bucketList := (bucketList s)[l := (bucketList s ! l)\<lparr>getSnap := b\<rparr>]\<rparr>"

definition setCurr :: "nat \<Rightarrow> 'e Bucket \<Rightarrow> 'e state \<Rightarrow> 'e state" where
  "setCurr l b s = s\<lparr>bucketList := (bucketList s)[l := (bucketList s ! l)\<lparr>getCurr := b\<rparr>]\<rparr>"

text \<open>
  Modelled from the spec: \<^verbatim>\<open>BucketManager::assumeState\<close> (not in this file)
  installs its argument as the authoritative head of the structure; the model records
  the argument of each call, in order.
\<close>

definition assumeState :: "HistoryArchiveState \<Rightarrow> 'e state \<Rightarrow> 'e state" where
  "assumeState has s = s\<lparr>assumed := assumed s @ [has]\<rparr>"

text \<open>
  \<^verbatim>\<open>onSuccess\<close>: the two commits, the four \<^verbatim>\<open>reset()\<close> calls, then the
  function itself. (\<^verbatim>\<open>logAndUpdateCatchupStatus\<close> only reports progress and is left
  out.)
\<close>

definition commitSnap :: "'e state \<Rightarrow> 'e state" where
  "commitSnap s =
     (case mSnapBucket s of
        None \<Rightarrow> s
      | Some b \<Rightarrow> (setSnap (mLevel s) b s)\<lparr>mBucketApplySuccess := mBucketApplySuccess s + 1\<rparr>)"

definition commitCurr :: "'e state \<Rightarrow> 'e state" where
  "commitCurr s =
     (case mCurrBucket s of
        None \<Rightarrow> s
      | Some b \<Rightarrow> (setCurr (mLevel s) b s)\<lparr>mBucketApplySuccess := mBucketApplySuccess s + 1\<rparr>)"

definition resetPointers :: "'e state \<Rightarrow> 'e state" where
  "resetPointers s =
     s\<lparr>mSnapBucket := None, mCurrBucket := None,
       mSnapApplicator := None, mCurrApplicator := None\<rparr>"

definition onSuccess :: "'e env \<Rightarrow> 'e state \<Rightarrow> error + (WorkState \<times> 'e state)" where
  "onSuccess env s =
     (if hasWork (mSnapApplicator s) \<or> hasWork (mCurrApplicator s)
      then Inr (WORK_RUNNING, s)
      else
        (case getBucketLevel s (mLevel s) of
           Inl e \<Rightarrow> Inl e
         | Inr level \<Rightarrow>
             (let s1 = resetPointers (commitCurr (commitSnap s))
              in if mLevel s1 \<noteq> 0
                 then Inr (WORK_PENDING,
                           s1\<lparr>mLevel := size_t_dec (mLevel s1),
                              clog := clog s1 @ [StartingNextLevel (size_t_dec (mLevel s1))]\<rparr>)
                 else Inr (WORK_SUCCESS,
                           assumeState (mApplyState env)
                             (s1\<lparr>clog := clog s1 @ [DoneRestartingMerges]\<rparr>)))))"

definition onFailureRetry :: "'e state \<Rightarrow> 'e state" where
  "onFailureRetry s = s\<lparr>mBucketApplyFailure := mBucketApplyFailure s + 1\<rparr>"

definition onFailureRaise :: "'e state \<Rightarrow> 'e state" where
  "onFailureRaise s = s\<lparr>mBucketApplyFailure := mBucketApplyFailure s + 1\<rparr>"

subsection \<open>The driver\<close>

text \<open>
  Modelled from the spec: the generic task driver (\<^verbatim>\<open>Work\<close>, not in this file)
  invokes the start hook when the work is pending, then the step hook, then the success
  evaluation (\<^verbatim>\<open>onRun\<close> ends with \<^verbatim>\<open>scheduleSuccess()\<close>); it keeps going while
  the evaluation answers running or pending, stops at success, and an error ends the run.
  \<open>crank\<close> is one such round, \<open>drive\<close> repeats it with a bound on the number of
  rounds (\<open>None\<close>: the bound was reached), and \<open>run\<close> is a whole run from the reset
  state, which is also the state the constructor builds.
\<close>

definition crank :: "'e env \<Rightarrow> WorkState \<Rightarrow> 'e state \<Rightarrow> error + (WorkState \<times> 'e state)" where
  "crank env ws s =
     (case (if ws = WORK_PENDING then onStart env s else Inr s) of
        Inl e \<Rightarrow> Inl e
      | Inr s1 \<Rightarrow> onSuccess env (onRun env s1))"

text \<open>
  Modelled from the spec: the driver's loop, for at most the given number of rounds.
\<close>

primrec drive :: "'e env \<Rightarrow> nat \<Rightarrow> WorkState \<Rightarrow> 'e state \<Rightarrow> (error + 'e state) option" where
  "drive env 0 ws s = None"
| "drive env (Suc n) ws s =
     (case crank env ws s of
        Inl e \<Rightarrow> Some (Inl e)
      | Inr (ws', s') \<Rightarrow> if ws' = WORK_SUCCESS then Some (Inr s') else drive env n ws' s')"

text \<open>
  Modelled from the spec: a run starts pending, from the reset state.
\<close>

definition run :: "'e env \<Rightarrow> nat \<Rightarrow> 'e state \<Rightarrow> (error + 'e state) option" where
  "run env fuel s = drive env fuel WORK_PENDING (onReset env s)"

subsection \<open>A hex codec, and a small instance\<close>

text \<open>
  Modelled from the spec: \<^verbatim>\<open>binToHex\<close> and \<^verbatim>\<open>hexToBin256\<close> live in
  \<^verbatim>\<open>crypto/Hex.h\<close>; the specification only says that a hash is externally
  represented as hex text. The theorems below hold for every codec of the environment;
  this one (64 digits, rendered in lower case, read in either case) is the instance used
  in the examples.
\<close>

definition hexDigitVal :: "char \<Rightarrow> nat option" where
  "hexDigitVal c =
     (let n = (of_char c :: nat)
      in if 48 \<le> n \<and> n \<le> 57 then Some (n - 48)
         else if 97 \<le> n \<and> n \<le> 102 then Some (n - 87)
         else if 65 \<le> n \<and> n \<le> 70 then Some (n - 55)
         else None)"

fun hexToNat :: "string \<Rightarrow> nat \<Rightarrow> nat option" where
  "hexToNat [] acc = Some acc"
| "hexToNat (c # cs) acc =
     (case hexDigitVal c of None \<Rightarrow> None | Some d \<Rightarrow> hexToNat cs (16 * acc + d))"

text \<open>
  Modelled from the spec: the decoder of the instance; exactly 64 hex digits, or failure.
\<close>

definition hexToBin256_ref :: "string \<Rightarrow> uint256 option" where
  "hexToBin256_ref s = (if length s = 64 then map_option of_nat (hexToNat s 0) else None)"

definition hexChar :: "nat \<Rightarrow> char" where
  "hexChar d = ''0123456789abcdef'' ! d"

fun natToHex :: "nat \<Rightarrow> nat \<Rightarrow> string" where
  "natToHex 0 v = []"
| "natToHex (Suc n) v = natToHex n (v div 16) @ [hexChar (v mod 16)]"

text \<open>
  Modelled from the spec: the renderer of the instance; 64 lower-case hex digits.
\<close>

definition binToHex_ref :: "uint256 \<Rightarrow> string" where
  "binToHex_ref w = natToHex 64 (unat w)"

text \<open>
  The instance: three levels, buckets of numbers, chunks of two entries. \<open>hexL n\<close> is
  the lower-case text of the hash \<open>n\<close> and \<open>hexU n\<close> the same text in upper case.
\<close>

definition bkt :: "nat \<Rightarrow> nat list \<Rightarrow> nat Bucket" where
  "bkt h es = \<lparr>getHash = of_nat h, getEntries = es\<rparr>"

definition hexL :: "nat \<Rightarrow> string" where
  "hexL n = binToHex_ref (of_nat n)"

definition upperChar :: "char \<Rightarrow> char" where
  "upperChar c =
     (let n = (of_char c :: nat) in if 97 \<le> n \<and> n \<le> 122 then char_of (n - 32) else c)"

definition hexU :: "nat \<Rightarrow> string" where
  "hexU n = map upperChar (hexL n)"

definition exLevels :: "nat BucketLevel list" where
  "exLevels =
     [\<lparr>getCurr = bkt 1 [10], getSnap = bkt 2 [20, 21]\<rparr>,
      \<lparr>getCurr = bkt 3 [30], getSnap = bkt 4 [40, 41, 42]\<rparr>,
      \<lparr>getCurr = bkt 5 [50], getSnap = bkt 171 [60]\<rparr>]"

definition exTarget :: "string \<Rightarrow> string \<Rightarrow> HistoryArchiveState" where
  "exTarget c2 s2 =
     \<lparr>currentBuckets =
        [\<lparr>curr = hexL 1, snap = hexL 2\<rparr>,
         \<lparr>curr = hexL 3, snap = hexL 4\<rparr>,
         \<lparr>curr = c2, snap = s2\<rparr>]\<rparr>"

definition exStore :: "uint256 \<Rightarrow> nat Bucket option" where
  "exStore h =
     (if h = 2 then Some (bkt 2 [20, 21])
      else if h = 3 then Some (bkt 3 [30])
      else if h = 4 then Some (bkt 4 [40, 41, 42])
      else if h = 5 then Some (bkt 5 [50])
      else if h = 171 then Some (bkt 171 [60])
      else None)"

definition exPool :: "string \<rightharpoonup> nat Bucket option" where
  "exPool = [hexL 7 \<mapsto> Some (bkt 7 [70, 71, 72]), hexL 1 \<mapsto> Some (bkt 1 [10])]"

definition exEnv :: "string \<Rightarrow> string \<Rightarrow> nat env" where
  "exEnv c2 s2 =
     \<lparr>kNumLevels = 3, hexToBin256 = hexToBin256_ref, binToHex = binToHex_ref,
      getBucketByHash = exStore, chunkSize = 2, mBuckets = exPool,
      mApplyState = exTarget c2 s2\<rparr>"

definition exState :: "nat state" where
  "exState =
     \<lparr>mApplying = False, mLevel = 2, mSnapBucket = None, mCurrBucket = None,
      mSnapApplicator = None, mCurrApplicator = None,
      mBucketApplyStart = 0, mBucketApplySuccess = 0, mBucketApplyFailure = 0,
      bucketList = exLevels, database = [], assumed = [], lookups = [], clog = []\<rparr>"

definition exRunning :: "nat state" where
  "exRunning =
     exState\<lparr>mApplying := True, mLevel := 1,
       mSnapBucket := Some (bkt 4 [40, 41, 42]), mCurrBucket := Some (bkt 3 [30]),
       mSnapApplicator := Some \<lparr>remaining = [40, 41, 42]\<rparr>,
       mCurrApplicator := Some \<lparr>remaining = [30]\<rparr>\<rparr>"

subsection \<open>Notions used in the proofs\<close>

text \<open>
  \<open>drain\<close> is the state once both applicators have been advanced to their end: the
  entries still pending are in the database, snap's before curr's. \<open>oneLevel\<close> is
  the work of one level as a single step (start, apply everything, evaluate), and
  \<open>levels\<close> repeats it for at most the given number of levels.
\<close>

definition pending :: "'e BucketApplicator option \<Rightarrow> 'e list" where
  "pending p = (case p of None \<Rightarrow> [] | Some a \<Rightarrow> remaining a)"

definition drain :: "'e state \<Rightarrow> 'e state" where
  "drain s =
     s\<lparr>mSnapApplicator := map_option (\<lambda>a. a\<lparr>remaining := []\<rparr>) (mSnapApplicator s),
       mCurrApplicator := map_option (\<lambda>a. a\<lparr>remaining := []\<rparr>) (mCurrApplicator s),
       database := database s @ pending (mSnapApplicator s) @ pending (mCurrApplicator s)\<rparr>"

definition finishWith ::
  "'e env \<Rightarrow> nat \<Rightarrow> error + (WorkState \<times> 'e state) \<Rightarrow> (error + 'e state) option" where
  "finishWith env n r =
     (case r of
        Inl e \<Rightarrow> Some (Inl e)
      | Inr (ws', s') \<Rightarrow> if ws' = WORK_SUCCESS then Some (Inr s') else drive env n ws' s')"

definition oneLevel :: "'e env \<Rightarrow> 'e state \<Rightarrow> error + (WorkState \<times> 'e state)" where
  "oneLevel env s =
     (case onStart env s of Inl e \<Rightarrow> Inl e | Inr s1 \<Rightarrow> onSuccess env (drain s1))"

primrec levels :: "'e env \<Rightarrow> nat \<Rightarrow> 'e state \<Rightarrow> (error + 'e state) option" where
  "levels env 0 s = None"
| "levels env (Suc j) s =
     (case oneLevel env s of
        Inl e \<Rightarrow> Some (Inl e)
      | Inr (ws', s') \<Rightarrow> if ws' = WORK_SUCCESS then Some (Inr s') else levels env j s')"

text \<open>
  The tests of \<^verbatim>\<open>onStart\<close> on the live level \<open>l\<close> of a bucket list, and the
  bucket a hash text resolves to.
\<close>

definition snapDiffers :: "'e env \<Rightarrow> 'e BucketLevel list \<Rightarrow> nat \<Rightarrow> bool" where
  "snapDiffers env bl l =
     (snap (currentBuckets (mApplyState env) ! l) \<noteq> binToHex env (getHash (getSnap (bl ! l))))"

definition currDiffers :: "'e env \<Rightarrow> 'e BucketLevel list \<Rightarrow> nat \<Rightarrow> bool" where
  "currDiffers env bl l =
     (curr (currentBuckets (mApplyState env) ! l) \<noteq> binToHex env (getHash (getCurr (bl ! l))))"

definition resolves :: "'e env \<Rightarrow> string \<Rightarrow> 'e Bucket \<Rightarrow> bool" where
  "resolves env hash b = (snd (getBucket env hash) = Inr b)"

definition idle :: "'e state \<Rightarrow> bool" where
  "idle s = (mSnapBucket s = None \<and> mCurrBucket s = None \<and>
             mSnapApplicator s = None \<and> mCurrApplicator s = None)"

text \<open>The entries the two applicators still have to apply.\<close>

definition todo :: "'e state \<Rightarrow> nat" where
  "todo s = length (pending (mSnapApplicator s)) + length (pending (mCurrApplicator s))"

section \<open>Lemmas\<close>

subsection \<open>The driver reaches the end of each level\<close>

lemma drive_Suc: "drive env (Suc n) ws s = finishWith env n (crank env ws s)"
  by (simp add: finishWith_def)

lemma drive_pending:
  "drive env (Suc m) WORK_PENDING s =
     (case onStart env s of Inl e \<Rightarrow> Some (Inl e) | Inr s1 \<Rightarrow> drive env (Suc m) WORK_RUNNING s1)"
  by (simp add: crank_def split: sum.splits)

lemma onRun_idle: "\<not> hasWork (mSnapApplicator s) \<Longrightarrow> \<not> hasWork (mCurrApplicator s) \<Longrightarrow> onRun env s = s"
  by (simp add: onRun_def)

lemma drain_idem: 
  assumes "\<not> hasWork (mSnapApplicator s)" "\<not> hasWork (mCurrApplicator s)"
  shows "drain s = s"
proof -
  have a: "map_option (\<lambda>a. a\<lparr>remaining := []\<rparr>) (mSnapApplicator s) = mSnapApplicator s"
    using assms(1) by (cases "mSnapApplicator s") (auto simp: hasWork_def applicatorBool_def)
  have b: "map_option (\<lambda>a. a\<lparr>remaining := []\<rparr>) (mCurrApplicator s) = mCurrApplicator s"
    using assms(2) by (cases "mCurrApplicator s") (auto simp: hasWork_def applicatorBool_def)
  have c: "pending (mSnapApplicator s) = []" "pending (mCurrApplicator s) = []"
    using assms by (auto simp: hasWork_def applicatorBool_def pending_def split: option.splits)
  show ?thesis by (simp add: drain_def a b c)
qed

lemma drain_onRun: "drain (onRun env s) = drain s"
  by (cases "mSnapApplicator s"; cases "mCurrApplicator s")
     (auto simp: drain_def onRun_def advance_def hasWork_def applicatorBool_def pending_def)

lemma todo_onRun: "0 < chunkSize env \<Longrightarrow> hasWork (mSnapApplicator s) \<or> hasWork (mCurrApplicator s) \<Longrightarrow> todo (onRun env s) < todo s"
  by (cases "mSnapApplicator s"; cases "mCurrApplicator s")
     (auto simp: todo_def onRun_def advance_def hasWork_def applicatorBool_def pending_def)

lemma onSuccess_busy: "hasWork (mSnapApplicator s) \<or> hasWork (mCurrApplicator s) \<Longrightarrow> onSuccess env s = Inr (WORK_RUNNING, s)"
  by (simp add: onSuccess_def)

lemma drive_running_drain:
  assumes c: "0 < chunkSize env"
  shows "\<exists>k. \<forall>n. drive env (Suc (k + n)) WORK_RUNNING s = finishWith env n (onSuccess env (drain s))"
proof (induction "todo s" arbitrary: s rule: less_induct)
  case less
  let ?t = "onRun env s"
  show ?case
  proof (cases "hasWork (mSnapApplicator ?t) \<or> hasWork (mCurrApplicator ?t)")
    case False
    then have "drain ?t = ?t" by (simp add: drain_idem)
    then have "?t = drain s" by (simp add: drain_onRun)
    then have "\<forall>n. drive env (Suc (0 + n)) WORK_RUNNING s = finishWith env n (onSuccess env (drain s))"
      by (simp add: crank_def finishWith_def)
    then show ?thesis by blast
  next
    case True
    have busy: "hasWork (mSnapApplicator s) \<or> hasWork (mCurrApplicator s)"
    proof (rule ccontr)
      assume "\<not> ?thesis"
      then have "?t = s" by (simp add: onRun_idle)
      with True \<open>\<not> ?thesis\<close> show False by simp
    qed
    from todo_onRun[OF c busy] have "todo ?t < todo s" .
    from less[OF this] obtain k where
      k: "\<forall>n. drive env (Suc (k + n)) WORK_RUNNING ?t = finishWith env n (onSuccess env (drain ?t))"
      by blast
    have "\<forall>n. drive env (Suc (Suc k + n)) WORK_RUNNING s = finishWith env n (onSuccess env (drain s))"
    proof
      fix n
      have "drive env (Suc (Suc k + n)) WORK_RUNNING s = drive env (Suc (k + n)) WORK_RUNNING ?t"
        using onSuccess_busy[OF True, of env] by (simp add: crank_def)
      also have "\<dots> = finishWith env n (onSuccess env (drain s))"
        using k by (simp add: drain_onRun)
      finally show "drive env (Suc (Suc k + n)) WORK_RUNNING s = finishWith env n (onSuccess env (drain s))" .
    qed
    then show ?thesis by blast
  qed
qed

lemma drive_level:
  assumes c: "0 < chunkSize env"
  shows "\<exists>k. \<forall>n. drive env (Suc (k + n)) WORK_PENDING s = finishWith env n (oneLevel env s)"
proof (cases "onStart env s")
  case (Inl e)
  then have "\<forall>n. drive env (Suc (0 + n)) WORK_PENDING s = finishWith env n (oneLevel env s)"
    by (simp add: crank_def finishWith_def oneLevel_def)
  then show ?thesis by blast
next
  case (Inr s1)
  from drive_running_drain[OF c, of s1] obtain k where
    "\<forall>n. drive env (Suc (k + n)) WORK_RUNNING s1 = finishWith env n (onSuccess env (drain s1))" by blast
  then have "\<forall>n. drive env (Suc (k + n)) WORK_PENDING s = finishWith env n (oneLevel env s)"
    using Inr by (simp add: drive_pending oneLevel_def del: drive.simps)
  then show ?thesis by blast
qed

lemma drive_mono: "drive env a ws s = Some r \<Longrightarrow> drive env (a + b) ws s = Some r"
proof (induction a arbitrary: ws s)
  case 0 then show ?case by simp
next
  case (Suc a)
  then show ?case by (auto split: sum.splits prod.splits if_splits)
qed

lemma drive_deterministic:
  assumes "drive env a ws s = Some r" "drive env b ws s = Some r'"
  shows "r = r'"
proof -
  from drive_mono[OF assms(1), of b] drive_mono[OF assms(2), of a]
  show ?thesis by (simp add: add.commute)
qed

lemma drain_not_busy: "\<not> hasWork (mSnapApplicator (drain s))" "\<not> hasWork (mCurrApplicator (drain s))"
  by (auto simp: drain_def hasWork_def applicatorBool_def split: option.splits)

lemma oneLevel_not_running: "oneLevel env s = Inr (ws, s') \<Longrightarrow> ws \<noteq> WORK_RUNNING"
  using drain_not_busy
  by (auto simp: oneLevel_def onSuccess_def Let_def split: sum.splits if_splits)

lemma levels_drive:
  assumes c: "0 < chunkSize env"
  shows "levels env j s = Some r \<Longrightarrow> \<exists>k. drive env k WORK_PENDING s = Some r"
proof (induction j arbitrary: s)
  case 0 then show ?case by simp
next
  case (Suc j)
  from drive_level[OF c, of s] obtain k where
    k: "\<And>n. drive env (Suc (k + n)) WORK_PENDING s = finishWith env n (oneLevel env s)" by blast
  show ?case
  proof (cases "oneLevel env s")
    case (Inl e)
    with Suc.prems k[of 0] have "drive env (Suc k) WORK_PENDING s = Some r"
      by (simp add: finishWith_def del: drive.simps)
    then show ?thesis by blast
  next
    case (Inr p)
    obtain ws s' where p: "p = (ws, s')" by (cases p)
    show ?thesis
    proof (cases "ws = WORK_SUCCESS")
      case True
      with Suc.prems Inr p k[of 0] have "drive env (Suc k) WORK_PENDING s = Some r"
        by (simp add: finishWith_def del: drive.simps)
      then show ?thesis by blast
    next
      case False
      with oneLevel_not_running[of env s ws s'] Inr p have ws: "ws = WORK_PENDING" by (cases ws) auto
      from Suc.prems Inr p False have "levels env j s' = Some r" by simp
      from Suc.IH[OF this] obtain k' where "drive env k' WORK_PENDING s' = Some r" by blast
      with k[of k'] Inr p False ws have "drive env (Suc (k + k')) WORK_PENDING s = Some r"
        by (simp add: finishWith_def del: drive.simps)
      then show ?thesis by blast
    qed
  qed
qed

subsection \<open>The effect of one level\<close>


lemma startSnap_Inr:
  "startSnap env i s = Inr s1 \<Longrightarrow>
     \<exists>b. resolves env (snap i) b \<and>
         s1 = s\<lparr>mSnapBucket := Some b,
                mSnapApplicator := Some (newBucketApplicator b),
                clog := clog s @ [StartingSnap (mLevel s) (snap i)],
                mApplying := True,
                mBucketApplyStart := mBucketApplyStart s + 1,
                lookups := lookups s @ fst (getBucket env (snap i))\<rparr>"
  by (auto simp: startSnap_def resolves_def split: prod.splits sum.splits)

lemma startCurr_Inr:
  "startCurr env i s = Inr s1 \<Longrightarrow>
     \<exists>b. resolves env (curr i) b \<and>
         s1 = s\<lparr>mCurrBucket := Some b,
                mCurrApplicator := Some (newBucketApplicator b),
                clog := clog s @ [StartingCurr (mLevel s) (curr i)],
                mApplying := True,
                mBucketApplyStart := mBucketApplyStart s + 1,
                lookups := lookups s @ fst (getBucket env (curr i))\<rparr>"
  by (auto simp: startCurr_def resolves_def split: prod.splits sum.splits)

lemma startSnap_resolves:
  "resolves env (snap i) b \<Longrightarrow> startSnap env i s \<noteq> Inl e"
  by (auto simp: startSnap_def resolves_def split: prod.splits sum.splits)

lemma startCurr_resolves:
  "resolves env (curr i) b \<Longrightarrow> startCurr env i s \<noteq> Inl e"
  by (auto simp: startCurr_def resolves_def split: prod.splits sum.splits)

lemma onStart_unfold:
  assumes "mLevel s < length (bucketList s)"
    and "mLevel s < length (currentBuckets (mApplyState env))"
  shows "onStart env s =
     (case (if mApplying s \<or> snapDiffers env (bucketList s) (mLevel s)
            then startSnap env (currentBuckets (mApplyState env) ! mLevel s) s else Inr s) of
        Inl e \<Rightarrow> Inl e
      | Inr s1 \<Rightarrow>
          if mApplying s1 \<or> currDiffers env (bucketList s) (mLevel s)
          then startCurr env (currentBuckets (mApplyState env) ! mLevel s) s1 else Inr s1)"
  using assms unfolding snapDiffers_def currDiffers_def
  by (simp add: onStart_def getBucketLevel_def vector_at_def)

lemma onStart_frame:
  assumes "onStart env s = Inr s1"
  shows "bucketList s1 = bucketList s" "mLevel s1 = mLevel s" "assumed s1 = assumed s"
    "database s1 = database s" "mBucketApplySuccess s1 = mBucketApplySuccess s"
    "mBucketApplyFailure s1 = mBucketApplyFailure s"
  using assms
  by (auto simp: onStart_def split: sum.splits if_splits dest!: startSnap_Inr startCurr_Inr)

lemma onStart_effect:
  assumes st: "onStart env s = Inr s1"
    and r1: "mLevel s < length (bucketList s)"
    and r2: "mLevel s < length (currentBuckets (mApplyState env))"
  defines "i \<equiv> currentBuckets (mApplyState env) ! mLevel s"
  defines "tS \<equiv> mApplying s \<or> snapDiffers env (bucketList s) (mLevel s)"
  defines "tC \<equiv> tS \<or> currDiffers env (bucketList s) (mLevel s)"
  shows "mApplying s1 = tC"
    and "tS \<Longrightarrow> \<exists>b. resolves env (snap i) b \<and> mSnapBucket s1 = Some b \<and>
                   mSnapApplicator s1 = Some (newBucketApplicator b)"
    and "\<not> tS \<Longrightarrow> mSnapBucket s1 = mSnapBucket s \<and> mSnapApplicator s1 = mSnapApplicator s"
    and "tC \<Longrightarrow> \<exists>b. resolves env (curr i) b \<and> mCurrBucket s1 = Some b \<and>
                   mCurrApplicator s1 = Some (newBucketApplicator b)"
    and "\<not> tC \<Longrightarrow> mCurrBucket s1 = mCurrBucket s \<and> mCurrApplicator s1 = mCurrApplicator s"
    and "mBucketApplyStart s1 = mBucketApplyStart s + (if tS then 1 else 0) + (if tC then 1 else 0)"
    and "clog s1 = clog s @ (if tS then [StartingSnap (mLevel s) (snap i)] else [])
                         @ (if tC then [StartingCurr (mLevel s) (curr i)] else [])"
    and "lookups s1 = lookups s @ (if tS then fst (getBucket env (snap i)) else [])
                               @ (if tC then fst (getBucket env (curr i)) else [])"
  using st unfolding onStart_unfold[OF r1 r2] i_def tS_def tC_def
  by (auto split: sum.splits if_splits dest!: startSnap_Inr startCurr_Inr)

lemma onStart_total:
  assumes r1: "mLevel s < length (bucketList s)"
    and r2: "mLevel s < length (currentBuckets (mApplyState env))"
    and "resolves env (snap (currentBuckets (mApplyState env) ! mLevel s)) bs"
    and "resolves env (curr (currentBuckets (mApplyState env) ! mLevel s)) bc"
  shows "\<exists>s1. onStart env s = Inr s1"
proof (cases "onStart env s")
  case (Inl e)
  then show ?thesis
    using startSnap_resolves[OF assms(3)] startCurr_resolves[OF assms(4)]
    unfolding onStart_unfold[OF r1 r2]
    by (auto split: sum.splits if_splits)
next
  case (Inr s1)
  then show ?thesis by blast
qed

lemma onSuccess_commit:
  assumes "onSuccess env s = Inr (ws, s')"
    and "\<not> hasWork (mSnapApplicator s)" "\<not> hasWork (mCurrApplicator s)"
    and "mLevel s < length (bucketList s)"
  shows "ws = (if mLevel s = 0 then WORK_SUCCESS else WORK_PENDING)"
    and "mLevel s' = mLevel s - 1"
    and "idle s'"
    and "mApplying s' = mApplying s"
    and "length (bucketList s') = length (bucketList s)"
    and "\<forall>m. m \<noteq> mLevel s \<longrightarrow> bucketList s' ! m = bucketList s ! m"
    and "getSnap (bucketList s' ! mLevel s) =
           (case mSnapBucket s of None \<Rightarrow> getSnap (bucketList s ! mLevel s) | Some b \<Rightarrow> b)"
    and "getCurr (bucketList s' ! mLevel s) =
           (case mCurrBucket s of None \<Rightarrow> getCurr (bucketList s ! mLevel s) | Some b \<Rightarrow> b)"
    and "mBucketApplySuccess s' = mBucketApplySuccess s
           + (if mSnapBucket s = None then 0 else 1) + (if mCurrBucket s = None then 0 else 1)"
    and "mBucketApplyStart s' = mBucketApplyStart s"
    and "mBucketApplyFailure s' = mBucketApplyFailure s"
    and "assumed s' = (if mLevel s = 0 then assumed s @ [mApplyState env] else assumed s)"
    and "database s' = database s"
    and "lookups s' = lookups s"
    and "clog s' = clog s @ [if mLevel s = 0 then DoneRestartingMerges
                             else StartingNextLevel (mLevel s - 1)]"
  using assms
  by (auto simp: onSuccess_def getBucketLevel_def vector_at_def Let_def resetPointers_def
      commitSnap_def commitCurr_def setSnap_def setCurr_def assumeState_def size_t_dec_def
      idle_def nth_list_update
      split: if_splits option.splits)

lemma onSuccess_total:
  assumes "mLevel s < length (bucketList s)"
  shows "\<exists>ws s'. onSuccess env s = Inr (ws, s')"
  using assms
  by (auto simp: onSuccess_def getBucketLevel_def vector_at_def Let_def)

lemma drain_fields:
  "bucketList (drain s) = bucketList s" "mLevel (drain s) = mLevel s"
  "mApplying (drain s) = mApplying s" "mSnapBucket (drain s) = mSnapBucket s"
  "mCurrBucket (drain s) = mCurrBucket s" "assumed (drain s) = assumed s"
  "mBucketApplyStart (drain s) = mBucketApplyStart s"
  "mBucketApplySuccess (drain s) = mBucketApplySuccess s"
  "mBucketApplyFailure (drain s) = mBucketApplyFailure s"
  "lookups (drain s) = lookups s" "clog (drain s) = clog s"
  "database (drain s) = database s @ pending (mSnapApplicator s) @ pending (mCurrApplicator s)"
  by (simp_all add: drain_def)

lemma oneLevel_effect:
  assumes ol: "oneLevel env s = Inr (ws, s')"
    and idle: "idle s"
    and r1: "mLevel s < length (bucketList s)"
    and r2: "mLevel s < length (currentBuckets (mApplyState env))"
  defines "i \<equiv> currentBuckets (mApplyState env) ! mLevel s"
  defines "tS \<equiv> mApplying s \<or> snapDiffers env (bucketList s) (mLevel s)"
  defines "tC \<equiv> tS \<or> currDiffers env (bucketList s) (mLevel s)"
  shows "ws = (if mLevel s = 0 then WORK_SUCCESS else WORK_PENDING)"
    and "mLevel s' = mLevel s - 1"
    and "idle s'"
    and "mApplying s' = tC"
    and "length (bucketList s') = length (bucketList s)"
    and "\<forall>m. m \<noteq> mLevel s \<longrightarrow> bucketList s' ! m = bucketList s ! m"
    and "tS \<Longrightarrow> resolves env (snap i) (getSnap (bucketList s' ! mLevel s))"
    and "\<not> tS \<Longrightarrow> getSnap (bucketList s' ! mLevel s) = getSnap (bucketList s ! mLevel s)"
    and "tC \<Longrightarrow> resolves env (curr i) (getCurr (bucketList s' ! mLevel s))"
    and "\<not> tC \<Longrightarrow> getCurr (bucketList s' ! mLevel s) = getCurr (bucketList s ! mLevel s)"
    and "mBucketApplyStart s' =
           mBucketApplyStart s + (if tS then 1 else 0) + (if tC then 1 else 0)"
    and "mBucketApplySuccess s' =
           mBucketApplySuccess s + (if tS then 1 else 0) + (if tC then 1 else 0)"
    and "mBucketApplyFailure s' = mBucketApplyFailure s"
    and "assumed s' = (if mLevel s = 0 then assumed s @ [mApplyState env] else assumed s)"
    and "clog s' = clog s @ (if tS then [StartingSnap (mLevel s) (snap i)] else [])
                         @ (if tC then [StartingCurr (mLevel s) (curr i)] else [])
                         @ [if mLevel s = 0 then DoneRestartingMerges
                            else StartingNextLevel (mLevel s - 1)]"
    and "lookups s' = lookups s @ (if tS then fst (getBucket env (snap i)) else [])
                               @ (if tC then fst (getBucket env (curr i)) else [])"
proof -
  from ol obtain s1 where st: "onStart env s = Inr s1"
    and su: "onSuccess env (drain s1) = Inr (ws, s')"
    by (auto simp: oneLevel_def split: sum.splits)
  note fr = onStart_frame[OF st]
  note ef = onStart_effect[OF st r1 r2, folded i_def tS_def tC_def]
  have r1': "mLevel (drain s1) < length (bucketList (drain s1))"
    using r1 by (simp add: drain_fields fr)
  note cm = onSuccess_commit[OF su drain_not_busy r1', unfolded drain_fields fr]
  from idle have n: "mSnapBucket s = None" "mCurrBucket s = None" by (simp_all add: idle_def)
  show "ws = (if mLevel s = 0 then WORK_SUCCESS else WORK_PENDING)" by (rule cm)
  show "mLevel s' = mLevel s - 1" by (rule cm)
  show "idle s'" by (rule cm)
  show "mApplying s' = tC" using cm(4) ef(1) by simp
  show "length (bucketList s') = length (bucketList s)" by (rule cm)
  show "\<forall>m. m \<noteq> mLevel s \<longrightarrow> bucketList s' ! m = bucketList s ! m" by (rule cm)
  show "resolves env (snap i) (getSnap (bucketList s' ! mLevel s))" if tS
    using cm(7) ef(2)[OF that] by auto
  show "getSnap (bucketList s' ! mLevel s) = getSnap (bucketList s ! mLevel s)" if "\<not> tS"
    using cm(7) ef(3)[OF that] n by simp
  show "resolves env (curr i) (getCurr (bucketList s' ! mLevel s))" if tC
    using cm(8) ef(4)[OF that] by auto
  show "getCurr (bucketList s' ! mLevel s) = getCurr (bucketList s ! mLevel s)" if "\<not> tC"
    using cm(8) ef(5)[OF that] n by simp
  show "mBucketApplyStart s' =
           mBucketApplyStart s + (if tS then 1 else 0) + (if tC then 1 else 0)"
    using cm(10) ef(6) by simp
  have sb: "(mSnapBucket s1 = None) = (\<not> tS)"
    using ef(2) ef(3) n by (cases tS) auto
  have cb: "(mCurrBucket s1 = None) = (\<not> tC)"
    using ef(4) ef(5) n by (cases tC) auto
  show "mBucketApplySuccess s' =
           mBucketApplySuccess s + (if tS then 1 else 0) + (if tC then 1 else 0)"
    using cm(9) sb cb by simp
  show "mBucketApplyFailure s' = mBucketApplyFailure s" by (rule cm)
  show "assumed s' = (if mLevel s = 0 then assumed s @ [mApplyState env] else assumed s)"
    by (rule cm)
  show "clog s' = clog s @ (if tS then [StartingSnap (mLevel s) (snap i)] else [])
                         @ (if tC then [StartingCurr (mLevel s) (curr i)] else [])
                         @ [if mLevel s = 0 then DoneRestartingMerges
                            else StartingNextLevel (mLevel s - 1)]"
    using cm(15) ef(7) by simp
  show "lookups s' = lookups s @ (if tS then fst (getBucket env (snap i)) else [])
                               @ (if tC then fst (getBucket env (curr i)) else [])"
    using cm(14) ef(8) by simp
qed

subsection \<open>Whole runs, level by level\<close>

lemma onStart_Inr_range:
  assumes "onStart env s = Inr s1"
  shows "mLevel s < length (bucketList s)"
    and "mLevel s < length (currentBuckets (mApplyState env))"
  using assms
  by (auto simp: onStart_def getBucketLevel_def vector_at_def split: if_splits)

lemma oneLevel_cursor:
  assumes ol: "oneLevel env s = Inr (ws, s')"
  shows "mLevel s < length (bucketList s)"
    and "mLevel s < length (currentBuckets (mApplyState env))"
    and "ws = (if mLevel s = 0 then WORK_SUCCESS else WORK_PENDING)"
    and "mLevel s' = mLevel s - 1"
    and "idle s'"
proof -
  from ol obtain s1 where st: "onStart env s = Inr s1"
    and su: "onSuccess env (drain s1) = Inr (ws, s')"
    by (auto simp: oneLevel_def split: sum.splits)
  show r1: "mLevel s < length (bucketList s)"
    and "mLevel s < length (currentBuckets (mApplyState env))"
    using onStart_Inr_range[OF st] by simp_all
  note fr = onStart_frame[OF st]
  have r1': "mLevel (drain s1) < length (bucketList (drain s1))"
    using r1 by (simp add: drain_fields fr)
  note cm = onSuccess_commit[OF su drain_not_busy r1', unfolded drain_fields fr]
  show "ws = (if mLevel s = 0 then WORK_SUCCESS else WORK_PENDING)" by (rule cm)
  show "mLevel s' = mLevel s - 1" by (rule cm)
  show "idle s'" by (rule cm)
qed

lemma levels_total: "mLevel s = j \<Longrightarrow> \<exists>r. levels env (Suc j) s = Some r"
proof (induction j arbitrary: s)
  case 0
  show ?case
  proof (cases "oneLevel env s")
    case (Inl e) then show ?thesis by simp
  next
    case (Inr p)
    obtain ws s' where p: "p = (ws, s')" by (cases p)
    from oneLevel_cursor(3)[of env s ws s'] Inr p 0 have "ws = WORK_SUCCESS" by simp
    with Inr p show ?thesis by simp
  qed
next
  case (Suc j)
  show ?case
  proof (cases "oneLevel env s")
    case (Inl e) then show ?thesis by simp
  next
    case (Inr p)
    obtain ws s' where p: "p = (ws, s')" by (cases p)
    from oneLevel_cursor(3,4)[of env s ws s'] Inr p Suc.prems
    have ws: "ws = WORK_PENDING" and l: "mLevel s' = j" by simp_all
    from Suc.IH[OF l] obtain r where "levels env (Suc j) s' = Some r" by blast
    with Inr p ws show ?thesis by simp
  qed
qed

lemma run_levels:
  assumes c: "0 < chunkSize env" and r: "run env fuel s = Some r"
  shows "levels env (Suc (mLevel (onReset env s))) (onReset env s) = Some r"
proof -
  from levels_total[OF refl, of env "onReset env s"] obtain r0
    where l: "levels env (Suc (mLevel (onReset env s))) (onReset env s) = Some r0" by blast
  from levels_drive[OF c l] obtain k
    where "drive env k WORK_PENDING (onReset env s) = Some r0" by blast
  with r have "r = r0" unfolding run_def by (rule drive_deterministic)
  with l show ?thesis by simp
qed

lemma run_terminates:
  assumes c: "0 < chunkSize env"
  shows "\<exists>fuel r. run env fuel s = Some r"
proof -
  from levels_total[OF refl, of env "onReset env s"] obtain r0
    where l: "levels env (Suc (mLevel (onReset env s))) (onReset env s) = Some r0" by blast
  from levels_drive[OF c l] show ?thesis unfolding run_def by blast
qed

lemma levels_run:
  assumes c: "0 < chunkSize env"
    and l: "levels env j (onReset env s) = Some r"
  shows "\<exists>fuel. run env fuel s = Some r"
  using levels_drive[OF c l] unfolding run_def .

lemma oneLevel_total:
  assumes r1: "mLevel s < length (bucketList s)"
    and r2: "mLevel s < length (currentBuckets (mApplyState env))"
    and "mApplying s \<or> snapDiffers env (bucketList s) (mLevel s)
           \<Longrightarrow> \<exists>b. resolves env (snap (currentBuckets (mApplyState env) ! mLevel s)) b"
    and "mApplying s \<or> snapDiffers env (bucketList s) (mLevel s) \<or>
         currDiffers env (bucketList s) (mLevel s)
           \<Longrightarrow> \<exists>b. resolves env (curr (currentBuckets (mApplyState env) ! mLevel s)) b"
  shows "\<exists>ws s'. oneLevel env s = Inr (ws, s')"
proof -
  have "\<exists>s1. onStart env s = Inr s1"
  proof (cases "onStart env s")
    case (Inl e)
    then show ?thesis
      using assms(3,4) startSnap_resolves startCurr_resolves
      unfolding onStart_unfold[OF r1 r2]
      by (fastforce split: sum.splits if_splits dest!: startSnap_Inr)
  next
    case (Inr s1) then show ?thesis by blast
  qed
  then obtain s1 where st: "onStart env s = Inr s1" by blast
  have "mLevel (drain s1) < length (bucketList (drain s1))"
    using r1 by (simp add: drain_fields onStart_frame[OF st])
  from onSuccess_total[OF this, of env] st show ?thesis by (simp add: oneLevel_def)
qed

lemma oneLevel_untouched:
  assumes ol: "oneLevel env s = Inr (ws, s')"
    and idle: "idle s"
    and nt: "\<not> mApplying s" "\<not> snapDiffers env (bucketList s) (mLevel s)"
      "\<not> currDiffers env (bucketList s) (mLevel s)"
  shows "bucketList s' = bucketList s"
proof -
  note r = oneLevel_cursor(1,2)[OF ol]
  note ef = oneLevel_effect[OF ol idle r]
  have "bucketList s' ! m = bucketList s ! m" if "m < length (bucketList s)" for m
  proof (cases "m = mLevel s")
    case True
    have "getSnap (bucketList s' ! mLevel s) = getSnap (bucketList s ! mLevel s)"
      "getCurr (bucketList s' ! mLevel s) = getCurr (bucketList s ! mLevel s)"
      using ef(8) ef(10) nt by simp_all
    then show ?thesis using True by (simp add: BucketLevel.equality)
  next
    case False
    then show ?thesis using ef(6) by simp
  qed
  with ef(5) show ?thesis by (simp add: nth_equalityI)
qed

lemma levels_above_untouched:
  "levels env (Suc j) s = Some (Inr s') \<Longrightarrow> mLevel s = j \<Longrightarrow> idle s \<Longrightarrow>
     length (bucketList s') = length (bucketList s) \<and>
     (\<forall>m. j < m \<longrightarrow> bucketList s' ! m = bucketList s ! m)"
proof (induction j arbitrary: s)
  case 0
  from "0.prems"(1) obtain ws where ol: "oneLevel env s = Inr (ws, s')"
    by (auto split: sum.splits prod.splits if_splits)
  note r = oneLevel_cursor(1,2)[OF ol]
  note ef = oneLevel_effect[OF ol "0.prems"(3) r]
  from ef(5) ef(6) "0.prems"(2) show ?case by simp
next
  case (Suc j)
  from Suc.prems(1) obtain ws s2 where ol: "oneLevel env s = Inr (ws, s2)"
    and rest: "if ws = WORK_SUCCESS then Some (Inr s2) = Some (Inr s')
               else levels env (Suc j) s2 = Some (Inr s')"
    by (auto split: sum.splits prod.splits if_splits)
  note cu = oneLevel_cursor[OF ol]
  note ef = oneLevel_effect[OF ol Suc.prems(3) cu(1,2)]
  from cu(3,4) Suc.prems(2) have ws: "ws = WORK_PENDING" and l: "mLevel s2 = j" by simp_all
  from rest ws have lv: "levels env (Suc j) s2 = Some (Inr s')" by simp
  from Suc.IH[OF lv l cu(5)] ef(5) ef(6) Suc.prems(2) show ?case by auto
qed

lemma cascade_levels:
  "levels env (Suc j) s = Some (Inr s') \<Longrightarrow> mLevel s = j \<Longrightarrow> idle s \<Longrightarrow>
     \<forall>m\<le>j. (mApplying s \<or>
              (\<exists>L. m < L \<and> L \<le> j \<and>
                   (snapDiffers env (bucketList s) L \<or> currDiffers env (bucketList s) L)))
        \<longrightarrow> resolves env (snap (currentBuckets (mApplyState env) ! m))
                        (getSnap (bucketList s' ! m)) \<and>
            resolves env (curr (currentBuckets (mApplyState env) ! m))
                        (getCurr (bucketList s' ! m))"
proof (induction j arbitrary: s)
  case 0
  from "0.prems"(1) obtain ws where ol: "oneLevel env s = Inr (ws, s')"
    by (auto split: sum.splits prod.splits if_splits)
  note r = oneLevel_cursor(1,2)[OF ol]
  note ef = oneLevel_effect[OF ol "0.prems"(3) r]
  from ef(7) ef(9) "0.prems"(2) show ?case by auto
next
  case (Suc j)
  from Suc.prems(1) obtain ws s2 where ol: "oneLevel env s = Inr (ws, s2)"
    and rest: "if ws = WORK_SUCCESS then Some (Inr s2) = Some (Inr s')
               else levels env (Suc j) s2 = Some (Inr s')"
    by (auto split: sum.splits prod.splits if_splits)
  note cu = oneLevel_cursor[OF ol]
  note ef = oneLevel_effect[OF ol Suc.prems(3) cu(1,2)]
  from cu(3,4) Suc.prems(2) have ws: "ws = WORK_PENDING" and l: "mLevel s2 = j" by simp_all
  from rest ws have lv: "levels env (Suc j) s2 = Some (Inr s')" by simp
  note IH = Suc.IH[OF lv l cu(5)]
  note ab = levels_above_untouched[OF lv l cu(5)]
  have same: "bucketList s2 ! L = bucketList s ! L" if "L \<le> j" for L
    using ef(6) Suc.prems(2) that by simp
  have sd: "snapDiffers env (bucketList s2) L = snapDiffers env (bucketList s) L"
    and cd: "currDiffers env (bucketList s2) L = currDiffers env (bucketList s) L"
    if "L \<le> j" for L
    using same[OF that] by (simp_all add: snapDiffers_def currDiffers_def)
  show ?case
  proof (intro allI impI)
    fix m
    assume m: "m \<le> Suc j"
      and trig: "mApplying s \<or>
              (\<exists>L. m < L \<and> L \<le> Suc j \<and>
                   (snapDiffers env (bucketList s) L \<or> currDiffers env (bucketList s) L))"
    show "resolves env (snap (currentBuckets (mApplyState env) ! m))
                        (getSnap (bucketList s' ! m)) \<and>
            resolves env (curr (currentBuckets (mApplyState env) ! m))
                        (getCurr (bucketList s' ! m))"
    proof (cases "m = Suc j")
      case True
      with trig have ap: "mApplying s" by auto
      from ab True have "bucketList s' ! m = bucketList s2 ! m" by simp
      with ef(7) ef(9) ap True Suc.prems(2) show ?thesis by simp
    next
      case False
      with m have mj: "m \<le> j" by simp
      have "mApplying s2 \<or>
              (\<exists>L. m < L \<and> L \<le> j \<and>
                   (snapDiffers env (bucketList s2) L \<or> currDiffers env (bucketList s2) L))"
      proof (cases "mApplying s2")
        case True then show ?thesis by simp
      next
        case na: False
        with ef(4) Suc.prems(2)
        have n: "\<not> mApplying s" "\<not> snapDiffers env (bucketList s) (Suc j)"
          "\<not> currDiffers env (bucketList s) (Suc j)" by auto
        with trig obtain L where L: "m < L" "L \<le> Suc j"
          "snapDiffers env (bucketList s) L \<or> currDiffers env (bucketList s) L" by blast
        with n have "L \<noteq> Suc j" by auto
        with L have Lj: "L \<le> j" by simp
        with L sd[OF Lj] cd[OF Lj] show ?thesis by blast
      qed
      with IH mj show ?thesis by blast
    qed
  qed
qed

lemma onReset_fields:
  "idle (onReset env s)" "\<not> mApplying (onReset env s)"
  "mLevel (onReset env s) = size_t_dec (kNumLevels env)"
  "bucketList (onReset env s) = bucketList s" "assumed (onReset env s) = assumed s"
  "mBucketApplyStart (onReset env s) = mBucketApplyStart s"
  "mBucketApplySuccess (onReset env s) = mBucketApplySuccess s"
  "database (onReset env s) = database s" "lookups (onReset env s) = lookups s"
  "clog (onReset env s) = clog s"
  by (simp_all add: onReset_def idle_def)

lemma onSuccess_assumed:
  assumes "onSuccess env s = Inr (ws, s1)"
  shows "assumed s1 = (if ws = WORK_SUCCESS then assumed s @ [mApplyState env] else assumed s)"
    and "ws = WORK_SUCCESS \<Longrightarrow>
           mLevel s = 0 \<and> \<not> hasWork (mSnapApplicator s) \<and> \<not> hasWork (mCurrApplicator s)"
  using assms
  by (auto simp: onSuccess_def Let_def resetPointers_def commitSnap_def commitCurr_def
      setSnap_def setCurr_def assumeState_def
      split: if_splits sum.splits option.splits)

lemma onRun_assumed: "assumed (onRun env s) = assumed s"
  by (auto simp: onRun_def advance_def split: option.splits)

lemma crank_assumed:
  assumes "crank env ws s = Inr (ws', s1)"
  shows "assumed s1 = (if ws' = WORK_SUCCESS then assumed s @ [mApplyState env] else assumed s)"
proof (cases "ws = WORK_PENDING")
  case True
  with assms obtain s0 where st: "onStart env s = Inr s0"
    and su: "onSuccess env (onRun env s0) = Inr (ws', s1)"
    by (auto simp: crank_def split: sum.splits)
  from onSuccess_assumed(1)[OF su] onStart_frame(3)[OF st] show ?thesis
    by (simp add: onRun_assumed)
next
  case False
  with assms have su: "onSuccess env (onRun env s) = Inr (ws', s1)"
    by (simp add: crank_def)
  from onSuccess_assumed(1)[OF su] show ?thesis by (simp add: onRun_assumed)
qed

lemma drive_assumed:
  "drive env n ws s = Some (Inr s') \<Longrightarrow> assumed s' = assumed s @ [mApplyState env]"
proof (induction n arbitrary: ws s)
  case 0 then show ?case by simp
next
  case (Suc n)
  from Suc.prems obtain ws' s1 where cr: "crank env ws s = Inr (ws', s1)"
    and rest: "if ws' = WORK_SUCCESS then s1 = s' else drive env n ws' s1 = Some (Inr s')"
    by (auto split: sum.splits prod.splits if_splits)
  show ?case
  proof (cases "ws' = WORK_SUCCESS")
    case True
    with rest crank_assumed[OF cr] show ?thesis by simp
  next
    case False
    with rest have "drive env n ws' s1 = Some (Inr s')" by simp
    from Suc.IH[OF this] crank_assumed[OF cr] False show ?thesis by simp
  qed
qed

lemma onStart_untriggered:
  assumes "mLevel s < length (bucketList s)"
    and "mLevel s < length (currentBuckets (mApplyState env))"
    and "\<not> mApplying s" "\<not> snapDiffers env (bucketList s) (mLevel s)"
      "\<not> currDiffers env (bucketList s) (mLevel s)"
  shows "onStart env s = Inr s"
  using assms(3-) by (simp add: onStart_unfold[OF assms(1,2)])

lemma resetPointers_idle: "idle s \<Longrightarrow> resetPointers (commitCurr (commitSnap s)) = s"
  by (cases s) (simp add: idle_def resetPointers_def commitCurr_def commitSnap_def)

lemma crank_noop:
  assumes idle: "idle s" and na: "\<not> mApplying s"
    and r1: "mLevel s < length (bucketList s)"
    and r2: "mLevel s < length (currentBuckets (mApplyState env))"
    and nd: "\<not> snapDiffers env (bucketList s) (mLevel s)"
      "\<not> currDiffers env (bucketList s) (mLevel s)"
  shows "crank env WORK_PENDING s =
           Inr (if mLevel s \<noteq> 0
                then (WORK_PENDING,
                      s\<lparr>mLevel := mLevel s - 1,
                        clog := clog s @ [StartingNextLevel (mLevel s - 1)]\<rparr>)
                else (WORK_SUCCESS,
                      s\<lparr>clog := clog s @ [DoneRestartingMerges],
                        assumed := assumed s @ [mApplyState env]\<rparr>))"
proof -
  from idle have nw: "\<not> hasWork (mSnapApplicator s)" "\<not> hasWork (mCurrApplicator s)"
    by (simp_all add: idle_def hasWork_def)
  have "crank env WORK_PENDING s = onSuccess env s"
    by (simp add: crank_def onStart_untriggered[OF r1 r2 na nd] onRun_idle[OF nw])
  also have "\<dots> = Inr (if mLevel s \<noteq> 0
                then (WORK_PENDING,
                      s\<lparr>mLevel := mLevel s - 1,
                        clog := clog s @ [StartingNextLevel (mLevel s - 1)]\<rparr>)
                else (WORK_SUCCESS,
                      s\<lparr>clog := clog s @ [DoneRestartingMerges],
                        assumed := assumed s @ [mApplyState env]\<rparr>))"
    using nw r1
    by (simp add: onSuccess_def getBucketLevel_def vector_at_def Let_def
        resetPointers_idle[OF idle] size_t_dec_def assumeState_def)
  finally show ?thesis .
qed

lemma noop_drive:
  "idle s \<Longrightarrow> \<not> mApplying s \<Longrightarrow> mLevel s = j \<Longrightarrow> j < length (bucketList s) \<Longrightarrow>
   j < length (currentBuckets (mApplyState env)) \<Longrightarrow>
   \<forall>l\<le>j. \<not> snapDiffers env (bucketList s) l \<and> \<not> currDiffers env (bucketList s) l \<Longrightarrow>
   drive env (Suc j) WORK_PENDING s =
     Some (Inr (s\<lparr>mLevel := 0,
                  clog := clog s @ map StartingNextLevel (rev [0..<j]) @ [DoneRestartingMerges],
                  assumed := assumed s @ [mApplyState env]\<rparr>))"
proof (induction j arbitrary: s)
  case 0
  have e: "s\<lparr>mLevel := mLevel s\<rparr> = s" by simp
  from 0 have "crank env WORK_PENDING s =
      Inr (WORK_SUCCESS, s\<lparr>clog := clog s @ [DoneRestartingMerges],
                           assumed := assumed s @ [mApplyState env]\<rparr>)"
    using crank_noop[of s env] by simp
  then have "drive env (Suc 0) WORK_PENDING s =
      Some (Inr (s\<lparr>clog := clog s @ [DoneRestartingMerges],
                   assumed := assumed s @ [mApplyState env]\<rparr>))" by simp
  also have "s\<lparr>clog := clog s @ [DoneRestartingMerges],
                   assumed := assumed s @ [mApplyState env]\<rparr> =
             s\<lparr>mLevel := mLevel s, clog := clog s @ [DoneRestartingMerges],
                   assumed := assumed s @ [mApplyState env]\<rparr>" by simp
  finally show ?case using "0.prems"(3) by simp
next
  case (Suc j)
  let ?s2 = "s\<lparr>mLevel := j, clog := clog s @ [StartingNextLevel j]\<rparr>"
  from Suc.prems have cr: "crank env WORK_PENDING s = Inr (WORK_PENDING, ?s2)"
    using crank_noop[of s env] by simp
  have "drive env (Suc j) WORK_PENDING ?s2 =
     Some (Inr (?s2\<lparr>mLevel := 0,
                  clog := clog ?s2 @ map StartingNextLevel (rev [0..<j]) @ [DoneRestartingMerges],
                  assumed := assumed ?s2 @ [mApplyState env]\<rparr>))"
    using Suc.prems by (intro Suc.IH) (simp_all add: idle_def)
  with cr show ?case by simp
qed

lemma resolves_unique: "resolves env h b \<Longrightarrow> resolves env h b' \<Longrightarrow> b = b'"
  by (simp add: resolves_def)

lemma levels_step:
  "oneLevel env s = Inr (WORK_PENDING, s2) \<Longrightarrow> levels env (Suc j) s = levels env j s2"
  by simp

lemma levels_last:
  "oneLevel env s = Inr (WORK_SUCCESS, s2) \<Longrightarrow> levels env (Suc j) s = Some (Inr s2)"
  by simp

lemma getBucket_nonzero:
  assumes "hexToBin256 env hash = Some bin" and "\<not> isZero bin"
  shows "getBucket env hash =
           (case mBuckets env hash of
              Some p \<Rightarrow> ([PoolFind hash],
                         (case p of Some b \<Rightarrow> Inr b | None \<Rightarrow> Inl MissingBucketError))
            | None \<Rightarrow> ([PoolFind hash, StoreGet bin],
                       (case getBucketByHash env bin of
                          Some b \<Rightarrow> Inr b | None \<Rightarrow> Inl MissingBucketError)))"
  using assms by (simp add: getBucket_def split: option.splits)

lemma mApplying_sticky:
  "mApplying t \<Longrightarrow> onStart env t = Inr t1 \<Longrightarrow> mApplying t1"
  "mApplying (onRun env t) = mApplying t"
  "onSuccess env t = Inr (ws, t1) \<Longrightarrow> mApplying t1 = mApplying t"
proof -
  show "mApplying t1" if "mApplying t" "onStart env t = Inr t1"
    using that onStart_effect(1)[OF that(2) onStart_Inr_range[OF that(2)]] by simp
  show "mApplying (onRun env t) = mApplying t"
    by (auto simp: onRun_def advance_def split: option.splits)
  show "mApplying t1 = mApplying t" if "onSuccess env t = Inr (ws, t1)"
    using that
    by (auto simp: onSuccess_def Let_def resetPointers_def commitSnap_def commitCurr_def
        setSnap_def setCurr_def assumeState_def split: if_splits sum.splits option.splits)
qed

section \<open>The claims\<close>

text \<open>
  C1 (cascade): a run always ends when chunks are not empty, and whenever it ends in
  success, a level \<open>L\<close> whose live snap or curr hash text differed from the target
  before the run forces every finer level \<open>L' < L\<close> to end with both its snap and its
  curr bucket being the buckets the target texts resolve to, whatever the live hashes of
  \<open>L'\<close> were. The flag that carries this is sticky: no hook of the run clears it
  once it is set.
\<close>

theorem cascade:
  assumes c: "0 < chunkSize env"
    and L: "L < kNumLevels env"
    and mism: "snapDiffers env (bucketList s) L \<or> currDiffers env (bucketList s) L"
    and L': "L' < L"
  shows "(\<exists>fuel r. run env fuel s = Some r) \<and>
         (\<forall>fuel s'. run env fuel s = Some (Inr s') \<longrightarrow>
            resolves env (snap (currentBuckets (mApplyState env) ! L'))
                         (getSnap (bucketList s' ! L')) \<and>
            resolves env (curr (currentBuckets (mApplyState env) ! L'))
                         (getCurr (bucketList s' ! L'))) \<and>
         (\<forall>t t1. mApplying t \<and> onStart env t = Inr t1 \<longrightarrow> mApplying t1) \<and>
         (\<forall>t. mApplying (onRun env t) = mApplying t) \<and>
         (\<forall>t ws t1. onSuccess env t = Inr (ws, t1) \<longrightarrow> mApplying t1 = mApplying t)"
proof (intro conjI allI impI)
  show "\<exists>fuel r. run env fuel s = Some r" by (rule run_terminates[OF c])
next
  fix fuel s'
  assume r: "run env fuel s = Some (Inr s')"
  let ?s0 = "onReset env s"
  let ?j = "mLevel ?s0"
  from L have j: "?j = kNumLevels env - 1" by (simp add: onReset_fields size_t_dec_def)
  from run_levels[OF c r] have lv: "levels env (Suc ?j) ?s0 = Some (Inr s')" .
  have trig: "mApplying ?s0 \<or>
      (\<exists>M. L' < M \<and> M \<le> ?j \<and>
           (snapDiffers env (bucketList ?s0) M \<or> currDiffers env (bucketList ?s0) M))"
    using mism L L' j by (auto simp: onReset_fields)
  from L L' j have "L' \<le> ?j" by simp
  with cascade_levels[OF lv refl onReset_fields(1)] trig
  show "resolves env (snap (currentBuckets (mApplyState env) ! L'))
                         (getSnap (bucketList s' ! L'))"
    and "resolves env (curr (currentBuckets (mApplyState env) ! L'))
                         (getCurr (bucketList s' ! L'))"
    by blast+
next
  fix t t1 :: "'a state"
  assume "mApplying t \<and> onStart env t = Inr t1"
  then show "mApplying t1" using mApplying_sticky(1) by blast
next
  fix t :: "'a state"
  show "mApplying (onRun env t) = mApplying t" by (rule mApplying_sticky(2))
next
  fix t t1 :: "'a state" and ws
  assume "onSuccess env t = Inr (ws, t1)"
  then show "mApplying t1 = mApplying t" by (rule mApplying_sticky(3))
qed

theorem cascade_witness:
  "0 < chunkSize (exEnv (hexL 7) (hexL 171)) \<and> 2 < kNumLevels (exEnv (hexL 7) (hexL 171)) \<and>
   currDiffers (exEnv (hexL 7) (hexL 171)) (bucketList exState) 2 \<and>
   \<not> snapDiffers (exEnv (hexL 7) (hexL 171)) (bucketList exState) 0 \<and>
   \<not> currDiffers (exEnv (hexL 7) (hexL 171)) (bucketList exState) 0 \<and>
   (\<exists>s'. run (exEnv (hexL 7) (hexL 171)) 7 exState = Some (Inr s') \<and>
      mBucketApplySuccess s' = 5 \<and>
      resolves (exEnv (hexL 7) (hexL 171)) (hexL 2) (getSnap (bucketList s' ! 0)) \<and>
      resolves (exEnv (hexL 7) (hexL 171)) (hexL 1) (getCurr (bucketList s' ! 0))) \<and>
   mApplying exRunning \<and>
   (\<exists>t1. onStart (exEnv (hexL 7) (hexL 171)) exRunning = Inr t1 \<and> mApplying t1) \<and>
   (\<exists>ws t1. onSuccess (exEnv (hexL 7) (hexL 171)) (drain exRunning) = Inr (ws, t1) \<and>
      mApplying t1)"
proof -
  let ?E = "exEnv (hexL 7) (hexL 171)"
  have h1: "0 < chunkSize ?E" by code_simp
  have h2: "2 < kNumLevels ?E" by code_simp
  have h3: "currDiffers ?E (bucketList exState) 2" by code_simp
  have h4: "\<not> snapDiffers ?E (bucketList exState) 0" by code_simp
  have h5: "\<not> currDiffers ?E (bucketList exState) 0" by code_simp
  have h6: "(0::nat) < 2" by simp
  have t: "snap (currentBuckets (mApplyState ?E) ! 0) = hexL 2"
    "curr (currentBuckets (mApplyState ?E) ! 0) = hexL 1" by code_simp+
  have "case run ?E 7 exState of Some (Inr s') \<Rightarrow> mBucketApplySuccess s' = 5 | _ \<Rightarrow> False"
    by code_simp
  then obtain s' where r: "run ?E 7 exState = Some (Inr s')" and m: "mBucketApplySuccess s' = 5"
    by (auto split: option.splits sum.splits)
  note T = cascade [OF h1 h2 disjI2 [OF h3] h6]
  note C = T [THEN conjunct2, THEN conjunct1, rule_format, OF r]
  from C t
  have A: "resolves ?E (hexL 2) (getSnap (bucketList s' ! 0)) \<and>
        resolves ?E (hexL 1) (getCurr (bucketList s' ! 0))"
    by simp
  have a: "mApplying exRunning" "mApplying (drain exRunning)" by code_simp+
  have "case onStart ?E exRunning of Inr t1 \<Rightarrow> True | Inl e \<Rightarrow> False" by code_simp
  then obtain t1 where st: "onStart ?E exRunning = Inr t1" by (auto split: sum.splits)
  from T [THEN conjunct2, THEN conjunct2, THEN conjunct1, rule_format, of exRunning t1] a st
  have B: "mApplying t1" by blast
  have "case onSuccess ?E (drain exRunning) of Inr p \<Rightarrow> True | Inl e \<Rightarrow> False" by code_simp
  then obtain ws t2 where su: "onSuccess ?E (drain exRunning) = Inr (ws, t2)"
    by (auto split: sum.splits)
  from T [THEN conjunct2, THEN conjunct2, THEN conjunct2, THEN conjunct2, rule_format, OF su] a
  have D: "mApplying t2" by simp
  from h1 h2 h3 h4 h5 r m A a st B su D show ?thesis by blast
qed

text \<open>
  C2 (missing-data fatality): a hash text that decodes to a non-zero hash held neither by
  the pool nor by the store makes \<open>getBucket\<close> fail with MissingBucketError after
  both lookups, and a start of level that has to resolve it ends the run with that error
  whatever rounds the driver has left: no bucket is substituted and nothing is tried
  again. This holds when the hash is the snap text of a level whose snap is started;
  when it is the curr text of a level whose curr alone differs; and when it is the curr
  text of a level whose snap is started (by the flag or by its own mismatch) and
  resolves, so that curr is started by the cascade.
\<close>

theorem missing_bucket_fatal:
  assumes "hexToBin256 env hash = Some bin" and "\<not> isZero bin"
    and "mBuckets env hash = None" and "getBucketByHash env bin = None"
  shows "getBucket env hash = ([PoolFind hash, StoreGet bin], Inl MissingBucketError) \<and>
         (\<forall>s n. mLevel s < length (bucketList s) \<and>
                 mLevel s < length (currentBuckets (mApplyState env)) \<and>
                 snap (currentBuckets (mApplyState env) ! mLevel s) = hash \<and>
                 (mApplying s \<or> snapDiffers env (bucketList s) (mLevel s))
            \<longrightarrow> drive env (Suc n) WORK_PENDING s = Some (Inl MissingBucketError)) \<and>
         (\<forall>s n. mLevel s < length (bucketList s) \<and>
                 mLevel s < length (currentBuckets (mApplyState env)) \<and>
                 curr (currentBuckets (mApplyState env) ! mLevel s) = hash \<and>
                 \<not> mApplying s \<and> \<not> snapDiffers env (bucketList s) (mLevel s) \<and>
                 currDiffers env (bucketList s) (mLevel s)
            \<longrightarrow> drive env (Suc n) WORK_PENDING s = Some (Inl MissingBucketError)) \<and>
         (\<forall>s n b. mLevel s < length (bucketList s) \<and>
                 mLevel s < length (currentBuckets (mApplyState env)) \<and>
                 curr (currentBuckets (mApplyState env) ! mLevel s) = hash \<and>
                 (mApplying s \<or> snapDiffers env (bucketList s) (mLevel s)) \<and>
                 resolves env (snap (currentBuckets (mApplyState env) ! mLevel s)) b
            \<longrightarrow> drive env (Suc n) WORK_PENDING s = Some (Inl MissingBucketError))"
proof -
  have g: "getBucket env hash = ([PoolFind hash, StoreGet bin], Inl MissingBucketError)"
    using assms by (simp add: getBucket_def)
  have a: "drive env (Suc n) WORK_PENDING s = Some (Inl MissingBucketError)"
    if "mLevel s < length (bucketList s)"
      "mLevel s < length (currentBuckets (mApplyState env))"
      "snap (currentBuckets (mApplyState env) ! mLevel s) = hash"
      "mApplying s \<or> snapDiffers env (bucketList s) (mLevel s)" for s :: "'a state" and n
  proof -
    have "onStart env s = Inl MissingBucketError"
      using that g by (auto simp: onStart_unfold startSnap_def)
    then show ?thesis by (simp add: drive_pending del: drive.simps)
  qed
  have b: "drive env (Suc n) WORK_PENDING s = Some (Inl MissingBucketError)"
    if "mLevel s < length (bucketList s)"
      "mLevel s < length (currentBuckets (mApplyState env))"
      "curr (currentBuckets (mApplyState env) ! mLevel s) = hash"
      "\<not> mApplying s" "\<not> snapDiffers env (bucketList s) (mLevel s)"
      "currDiffers env (bucketList s) (mLevel s)" for s :: "'a state" and n
  proof -
    have "onStart env s = Inl MissingBucketError"
      using that g by (auto simp: onStart_unfold startCurr_def)
    then show ?thesis by (simp add: drive_pending del: drive.simps)
  qed
  have c: "drive env (Suc n) WORK_PENDING s = Some (Inl MissingBucketError)"
    if r1: "mLevel s < length (bucketList s)"
      and r2: "mLevel s < length (currentBuckets (mApplyState env))"
      and h: "curr (currentBuckets (mApplyState env) ! mLevel s) = hash"
      and tS: "mApplying s \<or> snapDiffers env (bucketList s) (mLevel s)"
      and rs: "resolves env (snap (currentBuckets (mApplyState env) ! mLevel s)) b"
    for s :: "'a state" and n b
  proof -
    let ?i = "currentBuckets (mApplyState env) ! mLevel s"
    obtain s1 where s1: "startSnap env ?i s = Inr s1"
      using startSnap_resolves[OF rs, of s] by (cases "startSnap env ?i s") auto
    from startSnap_Inr[OF s1] have ap: "mApplying s1" by auto
    have sc: "startCurr env ?i s1 = Inl MissingBucketError"
      using g h by (simp add: startCurr_def)
    have "onStart env s = Inl MissingBucketError"
      using tS s1 ap sc unfolding onStart_unfold[OF r1 r2] by auto
    then show ?thesis by (simp add: drive_pending del: drive.simps)
  qed
  from g a b c show ?thesis by blast
qed

theorem missing_bucket_fatal_witness:
  "hexToBin256 (exEnv (hexL 5) (hexL 9)) (hexL 9) = Some 9 \<and> \<not> isZero 9 \<and>
   mBuckets (exEnv (hexL 5) (hexL 9)) (hexL 9) = None \<and>
   getBucketByHash (exEnv (hexL 5) (hexL 9)) 9 = None \<and>
   getBucket (exEnv (hexL 5) (hexL 9)) (hexL 9)
     = ([PoolFind (hexL 9), StoreGet 9], Inl MissingBucketError) \<and>
   snapDiffers (exEnv (hexL 5) (hexL 9)) (bucketList exState) (mLevel exState) \<and>
   drive (exEnv (hexL 5) (hexL 9)) (Suc 0) WORK_PENDING exState = Some (Inl MissingBucketError) \<and>
   \<not> snapDiffers (exEnv (hexL 9) (hexL 171)) (bucketList exState) (mLevel exState) \<and>
   currDiffers (exEnv (hexL 9) (hexL 171)) (bucketList exState) (mLevel exState) \<and>
   drive (exEnv (hexL 9) (hexL 171)) (Suc 0) WORK_PENDING exState = Some (Inl MissingBucketError) \<and>
   snapDiffers (exEnv (hexL 9) (hexU 171)) (bucketList exState) (mLevel exState) \<and>
   resolves (exEnv (hexL 9) (hexU 171)) (hexU 171) (bkt 171 [60]) \<and>
   drive (exEnv (hexL 9) (hexU 171)) (Suc 0) WORK_PENDING exState = Some (Inl MissingBucketError) \<and>
   mApplying (exState\<lparr>mApplying := True, mLevel := 1\<rparr>) \<and>
   resolves (exEnv (hexL 5) (hexL 171)\<lparr>getBucketByHash := exStore(3 := None)\<rparr>) (hexL 4)
     (bkt 4 [40, 41, 42]) \<and>
   drive (exEnv (hexL 5) (hexL 171)\<lparr>getBucketByHash := exStore(3 := None)\<rparr>) (Suc 0)
     WORK_PENDING (exState\<lparr>mApplying := True, mLevel := 1\<rparr>) = Some (Inl MissingBucketError)"
proof -
  let ?E = "exEnv (hexL 5) (hexL 9)"
  let ?F = "exEnv (hexL 9) (hexL 171)"
  let ?G = "exEnv (hexL 9) (hexU 171)"
  let ?H = "exEnv (hexL 5) (hexL 171)\<lparr>getBucketByHash := exStore(3 := None)\<rparr>"
  let ?S = "exState\<lparr>mApplying := True, mLevel := 1\<rparr>"
  have h1: "hexToBin256 ?E (hexL 9) = Some 9" by code_simp
  have h2: "\<not> isZero 9" by (simp add: isZero_def)
  have h3: "mBuckets ?E (hexL 9) = None" by code_simp
  have h4: "getBucketByHash ?E 9 = None" by code_simp
  have h5: "mLevel exState < length (bucketList exState)" by code_simp
  have h6: "mLevel exState < length (currentBuckets (mApplyState ?E))" by code_simp
  have h7: "snap (currentBuckets (mApplyState ?E) ! mLevel exState) = hexL 9" by code_simp
  have h8: "snapDiffers ?E (bucketList exState) (mLevel exState)" by code_simp
  have a: "getBucket ?E (hexL 9) = ([PoolFind (hexL 9), StoreGet 9], Inl MissingBucketError)"
    and b: "drive ?E (Suc 0) WORK_PENDING exState = Some (Inl MissingBucketError)"
    using h5 h6 h7 h8 missing_bucket_fatal [OF h1 h2 h3 h4] by blast+
  have g1: "hexToBin256 ?F (hexL 9) = Some 9" by code_simp
  have g3: "mBuckets ?F (hexL 9) = None" by code_simp
  have g4: "getBucketByHash ?F 9 = None" by code_simp
  have g6: "mLevel exState < length (currentBuckets (mApplyState ?F))" by code_simp
  have g7: "curr (currentBuckets (mApplyState ?F) ! mLevel exState) = hexL 9" by code_simp
  have g8: "\<not> mApplying exState" "\<not> snapDiffers ?F (bucketList exState) (mLevel exState)"
    "currDiffers ?F (bucketList exState) (mLevel exState)" by code_simp+
  have c: "drive ?F (Suc 0) WORK_PENDING exState = Some (Inl MissingBucketError)"
    using h5 g6 g7 g8 missing_bucket_fatal [OF g1 h2 g3 g4] by blast
  have k1: "hexToBin256 ?G (hexL 9) = Some 9" by code_simp
  have k3: "mBuckets ?G (hexL 9) = None" by code_simp
  have k4: "getBucketByHash ?G 9 = None" by code_simp
  have k6: "mLevel exState < length (currentBuckets (mApplyState ?G))" by code_simp
  have k7: "curr (currentBuckets (mApplyState ?G) ! mLevel exState) = hexL 9" by code_simp
  have k8: "snapDiffers ?G (bucketList exState) (mLevel exState)" by code_simp
  have k9: "snap (currentBuckets (mApplyState ?G) ! mLevel exState) = hexU 171" by code_simp
  have k10: "resolves ?G (hexU 171) (bkt 171 [60])" by code_simp
  have k11: "resolves ?G (snap (currentBuckets (mApplyState ?G) ! mLevel exState)) (bkt 171 [60])"
    by code_simp
  note T = missing_bucket_fatal [OF k1 h2 k3 k4]
  from T [THEN conjunct2, THEN conjunct2, THEN conjunct2, rule_format,
      of exState "bkt 171 [60]" 0] h5 k6 k7 k8 k11
  have d: "drive ?G (Suc 0) WORK_PENDING exState = Some (Inl MissingBucketError)" by blast
  have m1: "hexToBin256 ?H (hexL 3) = Some 3" by code_simp
  have m2: "\<not> isZero 3" by (simp add: isZero_def)
  have m3: "mBuckets ?H (hexL 3) = None" by code_simp
  have m4: "getBucketByHash ?H 3 = None" by code_simp
  have m5: "mLevel ?S < length (bucketList ?S)" by code_simp
  have m6: "mLevel ?S < length (currentBuckets (mApplyState ?H))" by code_simp
  have m7: "curr (currentBuckets (mApplyState ?H) ! mLevel ?S) = hexL 3" by code_simp
  have m8: "mApplying ?S" by code_simp
  have m9: "resolves ?H (hexL 4) (bkt 4 [40, 41, 42])" by code_simp
  have m10: "resolves ?H (snap (currentBuckets (mApplyState ?H) ! mLevel ?S)) (bkt 4 [40, 41, 42])"
    by code_simp
  note U = missing_bucket_fatal [OF m1 m2 m3 m4]
  from U [THEN conjunct2, THEN conjunct2, THEN conjunct2, rule_format,
      of ?S "bkt 4 [40, 41, 42]" 0] m5 m6 m7 m8 m10
  have e: "drive ?H (Suc 0) WORK_PENDING ?S = Some (Inl MissingBucketError)" by blast
  show ?thesis using h1 h2 h3 h4 h8 a b g8 c k8 k10 d m8 m9 e by blast
qed

text \<open>
  C3 (final-state equivalence, single commit point): \<open>assumeState\<close> is called only by
  an evaluation made with the cursor at level 0 and both applicators exhausted, which is
  the evaluation that answers success; the other hooks never call it. So a run that ends
  in success has installed the target state exactly once, as its last act, and the
  installed head has the target's snap and curr text at every level.
\<close>

theorem final_state_equivalence:
  "(\<forall>ws s1. onSuccess env s = Inr (ws, s1) \<and> assumed s1 \<noteq> assumed s \<longrightarrow>
      mLevel s = 0 \<and> \<not> hasWork (mSnapApplicator s) \<and> \<not> hasWork (mCurrApplicator s) \<and>
      ws = WORK_SUCCESS \<and> assumed s1 = assumed s @ [mApplyState env]) \<and>
   (\<forall>s1. onSuccess env s = Inr (WORK_SUCCESS, s1) \<longrightarrow>
      assumed s1 = assumed s @ [mApplyState env]) \<and>
   assumed (onRun env s) = assumed s \<and> assumed (onReset env s) = assumed s \<and>
   (\<forall>s1. onStart env s = Inr s1 \<longrightarrow> assumed s1 = assumed s) \<and>
   (\<forall>fuel s'. run env fuel s = Some (Inr s') \<longrightarrow>
      assumed s' = assumed s @ [mApplyState env] \<and>
      (\<forall>i<length (currentBuckets (mApplyState env)).
         snap (currentBuckets (last (assumed s')) ! i)
           = snap (currentBuckets (mApplyState env) ! i) \<and>
         curr (currentBuckets (last (assumed s')) ! i)
           = curr (currentBuckets (mApplyState env) ! i)))"
proof -
  have a: "mLevel s = 0 \<and> \<not> hasWork (mSnapApplicator s) \<and> \<not> hasWork (mCurrApplicator s) \<and>
      ws = WORK_SUCCESS \<and> assumed s1 = assumed s @ [mApplyState env]"
    if "onSuccess env s = Inr (ws, s1)" "assumed s1 \<noteq> assumed s" for ws s1
    using onSuccess_assumed[OF that(1)] that(2) by (cases "ws = WORK_SUCCESS") auto
  have b: "assumed s1 = assumed s @ [mApplyState env]"
    if "onSuccess env s = Inr (WORK_SUCCESS, s1)" for s1
    using onSuccess_assumed(1)[OF that] by simp
  have d: "assumed s' = assumed s @ [mApplyState env]"
    if "run env fuel s = Some (Inr s')" for fuel s'
    using drive_assumed[of env fuel WORK_PENDING "onReset env s" s'] that
    by (simp add: run_def onReset_fields)
  have e: "assumed (onRun env s) = assumed s" "assumed (onReset env s) = assumed s"
    "\<forall>s1. onStart env s = Inr s1 \<longrightarrow> assumed s1 = assumed s"
    by (simp_all add: onRun_assumed onReset_fields onStart_frame)
  have f: "\<forall>fuel s'. run env fuel s = Some (Inr s') \<longrightarrow>
      assumed s' = assumed s @ [mApplyState env] \<and>
      (\<forall>i<length (currentBuckets (mApplyState env)).
         snap (currentBuckets (last (assumed s')) ! i)
           = snap (currentBuckets (mApplyState env) ! i) \<and>
         curr (currentBuckets (last (assumed s')) ! i)
           = curr (currentBuckets (mApplyState env) ! i))"
    using d by simp
  from a b e f show ?thesis by blast
qed

theorem final_state_equivalence_witness:
  "(\<exists>s'. run (exEnv (hexL 7) (hexL 171)) 7 exState = Some (Inr s') \<and>
      assumed exState = [] \<and> assumed s' = [exTarget (hexL 7) (hexL 171)] \<and>
      mLevel s' = 0 \<and>
      curr (currentBuckets (last (assumed s')) ! 2) = hexL 7) \<and>
   (\<exists>s1. onSuccess (exEnv (hexL 7) (hexL 171)) (exState\<lparr>mLevel := 0\<rparr>)
            = Inr (WORK_SUCCESS, s1) \<and>
         assumed s1 = [exTarget (hexL 7) (hexL 171)]) \<and>
   (\<exists>s1. onStart (exEnv (hexL 7) (hexL 171)) exState = Inr s1 \<and> assumed s1 = [])"
proof -
  let ?E = "exEnv (hexL 7) (hexL 171)"
  have "case run ?E 7 exState of Some (Inr s') \<Rightarrow> mLevel s' = 0 | _ \<Rightarrow> False"
    by code_simp
  then obtain s' where r: "run ?E 7 exState = Some (Inr s')" and l: "mLevel s' = 0"
    by (auto split: option.splits sum.splits)
  have e: "assumed exState = []" "assumed (exState\<lparr>mLevel := 0\<rparr>) = []"
    by (simp_all add: exState_def)
  have t: "mApplyState ?E = exTarget (hexL 7) (hexL 171)" by (simp add: exEnv_def)
  have t2: "curr (currentBuckets (exTarget (hexL 7) (hexL 171)) ! 2) = hexL 7"
    by (simp add: exTarget_def)
  from final_state_equivalence [of ?E exState] r
  have "assumed s' = assumed exState @ [mApplyState ?E]" by blast
  with e t have "assumed s' = [exTarget (hexL 7) (hexL 171)]" by simp
  with r e l t2 have A: "\<exists>s'. run ?E 7 exState = Some (Inr s') \<and>
      assumed exState = [] \<and> assumed s' = [exTarget (hexL 7) (hexL 171)] \<and>
      mLevel s' = 0 \<and> curr (currentBuckets (last (assumed s')) ! 2) = hexL 7" by simp
  have "case onSuccess ?E (exState\<lparr>mLevel := 0\<rparr>) of Inr (ws, s1) \<Rightarrow> ws = WORK_SUCCESS
          | Inl e \<Rightarrow> False" by code_simp
  then obtain s1 where su: "onSuccess ?E (exState\<lparr>mLevel := 0\<rparr>) = Inr (WORK_SUCCESS, s1)"
    by (auto split: sum.splits)
  from final_state_equivalence [of ?E "exState\<lparr>mLevel := 0\<rparr>"] su
  have "assumed s1 = assumed (exState\<lparr>mLevel := 0\<rparr>) @ [mApplyState ?E]" by blast
  with e t su have B: "\<exists>s1. onSuccess ?E (exState\<lparr>mLevel := 0\<rparr>) = Inr (WORK_SUCCESS, s1) \<and>
         assumed s1 = [exTarget (hexL 7) (hexL 171)]" by simp
  have "case onStart ?E exState of Inr s1 \<Rightarrow> True | Inl e \<Rightarrow> False" by code_simp
  then obtain s2 where st: "onStart ?E exState = Inr s2" by (auto split: sum.splits)
  from final_state_equivalence [of ?E exState] st
  have "assumed s2 = assumed exState" by blast
  with e st have C: "\<exists>s1. onStart ?E exState = Inr s1 \<and> assumed s1 = []" by simp
  from A B C show ?thesis by blast
qed

text \<open>
  C4 (commit atomicity per level): the step hook and the start hook never change the
  bucket list; an evaluation made while an applicator has work left answers running and
  returns the state as it is; so an evaluation that changes the bucket list is one made
  with both applicators exhausted, it does not answer running, and it changes no level
  but the one at the cursor.
\<close>

theorem commit_atomicity:
  "bucketList (onRun env s) = bucketList s \<and>
   (\<forall>s1. onStart env s = Inr s1 \<longrightarrow> bucketList s1 = bucketList s) \<and>
   (hasWork (mSnapApplicator s) \<or> hasWork (mCurrApplicator s) \<longrightarrow>
      onSuccess env s = Inr (WORK_RUNNING, s)) \<and>
   (\<forall>ws s'. onSuccess env s = Inr (ws, s') \<and> bucketList s' \<noteq> bucketList s \<longrightarrow>
      \<not> hasWork (mSnapApplicator s) \<and> \<not> hasWork (mCurrApplicator s) \<and>
      ws \<noteq> WORK_RUNNING \<and> length (bucketList s') = length (bucketList s) \<and>
      (\<forall>m. m \<noteq> mLevel s \<longrightarrow> bucketList s' ! m = bucketList s ! m))"
proof -
  have a: "bucketList (onRun env s) = bucketList s"
    by (auto simp: onRun_def advance_def split: option.splits)
  have b: "\<forall>s1. onStart env s = Inr s1 \<longrightarrow> bucketList s1 = bucketList s"
    by (simp add: onStart_frame)
  have c: "hasWork (mSnapApplicator s) \<or> hasWork (mCurrApplicator s) \<longrightarrow>
      onSuccess env s = Inr (WORK_RUNNING, s)"
    by (simp add: onSuccess_busy)
  have d: "\<not> hasWork (mSnapApplicator s) \<and> \<not> hasWork (mCurrApplicator s) \<and>
      ws \<noteq> WORK_RUNNING \<and> length (bucketList s') = length (bucketList s) \<and>
      (\<forall>m. m \<noteq> mLevel s \<longrightarrow> bucketList s' ! m = bucketList s ! m)"
    if su: "onSuccess env s = Inr (ws, s')" and ne: "bucketList s' \<noteq> bucketList s" for ws s'
  proof -
    have nb: "\<not> (hasWork (mSnapApplicator s) \<or> hasWork (mCurrApplicator s))"
      using su ne onSuccess_busy[of s env] by auto
    then have nb1: "\<not> hasWork (mSnapApplicator s)" and nb2: "\<not> hasWork (mCurrApplicator s)"
      by simp_all
    have r: "mLevel s < length (bucketList s)"
      using su nb by (auto simp: onSuccess_def getBucketLevel_def vector_at_def split: if_splits)
    from onSuccess_commit(1,5,6)[OF su nb1 nb2 r] nb1 nb2 show ?thesis
      by (auto split: if_splits)
  qed
  from a b c d show ?thesis by blast
qed

theorem commit_atomicity_witness:
  "hasWork (mSnapApplicator exRunning) \<and>
   onSuccess (exEnv (hexL 7) (hexL 171)) exRunning = Inr (WORK_RUNNING, exRunning) \<and>
   bucketList (onRun (exEnv (hexL 7) (hexL 171)) exRunning) = exLevels \<and>
   (\<exists>s1. onStart (exEnv (hexL 7) (hexL 171)) exState = Inr s1 \<and> mCurrBucket s1 \<noteq> None \<and>
         bucketList s1 = exLevels) \<and>
   (\<exists>ws s'. onSuccess (exEnv (hexL 7) (hexL 171))
               (drain (exRunning\<lparr>mCurrBucket := Some (bkt 7 [70])\<rparr>)) = Inr (ws, s') \<and>
      bucketList s' \<noteq> bucketList (drain (exRunning\<lparr>mCurrBucket := Some (bkt 7 [70])\<rparr>)) \<and>
      ws = WORK_PENDING \<and>
      bucketList s' ! 0 = exLevels ! 0 \<and> bucketList s' ! 2 = exLevels ! 2)"
proof -
  let ?E = "exEnv (hexL 7) (hexL 171)"
  let ?D = "drain (exRunning\<lparr>mCurrBucket := Some (bkt 7 [70])\<rparr>)"
  have h1: "hasWork (mSnapApplicator exRunning)"
    by (simp add: exRunning_def exState_def hasWork_def applicatorBool_def)
  have bl: "bucketList exRunning = exLevels" "bucketList ?D = exLevels" "mLevel ?D = 1"
    "bucketList exState = exLevels"
    by (simp_all add: exRunning_def exState_def drain_def)
  obtain ws s' where su: "onSuccess ?E ?D = Inr (ws, s')"
    using onSuccess_total[of ?D ?E] bl by (auto simp: exLevels_def)
  have ws: "ws = WORK_PENDING" and ne: "bucketList s' \<noteq> bucketList ?D"
    using su
    by (auto simp: onSuccess_def Let_def drain_def exRunning_def exState_def exLevels_def
        hasWork_def applicatorBool_def getBucketLevel_def vector_at_def resetPointers_def
        commitSnap_def commitCurr_def setSnap_def setCurr_def bkt_def)
  from commit_atomicity [of ?E exRunning] h1 bl
  have r1: "onSuccess ?E exRunning = Inr (WORK_RUNNING, exRunning)"
    "bucketList (onRun ?E exRunning) = exLevels" by auto
  from commit_atomicity [of ?E ?D] su ne
  have "\<forall>m. m \<noteq> mLevel ?D \<longrightarrow> bucketList s' ! m = bucketList ?D ! m" by blast
  then have r2: "bucketList s' ! 0 = exLevels ! 0 \<and> bucketList s' ! 2 = exLevels ! 2"
    by (simp add: bl)
  have "case onStart ?E exState of Inr s1 \<Rightarrow> mCurrBucket s1 \<noteq> None | Inl e \<Rightarrow> False"
    by code_simp
  then obtain s1 where st: "onStart ?E exState = Inr s1" and cb: "mCurrBucket s1 \<noteq> None"
    by (auto split: sum.splits)
  from commit_atomicity [of ?E exState] st have "bucketList s1 = bucketList exState" by blast
  with bl st cb have r3: "\<exists>s1. onStart ?E exState = Inr s1 \<and> mCurrBucket s1 \<noteq> None \<and>
         bucketList s1 = exLevels" by simp
  show ?thesis using h1 r1 r3 su ne ws r2 by blast
qed

text \<open>
  C5 (step ordering and bound): one call of the step hook advances the snap applicator
  by one chunk and leaves the curr applicator alone when snap has work left; it advances
  the curr applicator by one chunk, and leaves snap alone, only when snap has none and
  curr has some; otherwise it changes nothing. In every case the database grows by one
  chunk of at most \<open>chunkSize\<close> entries, so the curr applicator changes only in a
  state whose snap applicator is exhausted.
\<close>

theorem step_ordering:
  "(hasWork (mSnapApplicator s) \<longrightarrow>
      (\<exists>a. mSnapApplicator s = Some a \<and>
           mSnapApplicator (onRun env s) = Some (fst (advance env a (database s))) \<and>
           database (onRun env s) = snd (advance env a (database s))) \<and>
      mCurrApplicator (onRun env s) = mCurrApplicator s) \<and>
   (\<not> hasWork (mSnapApplicator s) \<and> hasWork (mCurrApplicator s) \<longrightarrow>
      (\<exists>a. mCurrApplicator s = Some a \<and>
           mCurrApplicator (onRun env s) = Some (fst (advance env a (database s))) \<and>
           database (onRun env s) = snd (advance env a (database s))) \<and>
      mSnapApplicator (onRun env s) = mSnapApplicator s) \<and>
   (\<not> hasWork (mSnapApplicator s) \<and> \<not> hasWork (mCurrApplicator s) \<longrightarrow> onRun env s = s) \<and>
   (\<exists>chunk. length chunk \<le> chunkSize env \<and> database (onRun env s) = database s @ chunk) \<and>
   (mCurrApplicator (onRun env s) \<noteq> mCurrApplicator s \<longrightarrow> \<not> hasWork (mSnapApplicator s))"
  by (cases "mSnapApplicator s"; cases "mCurrApplicator s")
     (auto simp: onRun_def advance_def hasWork_def)

theorem step_ordering_witness:
  "hasWork (mSnapApplicator exRunning) \<and>
   mSnapApplicator (onRun (exEnv (hexL 7) (hexL 171)) exRunning) = Some \<lparr>remaining = [42]\<rparr> \<and>
   mCurrApplicator (onRun (exEnv (hexL 7) (hexL 171)) exRunning) = Some \<lparr>remaining = [30]\<rparr> \<and>
   database (onRun (exEnv (hexL 7) (hexL 171)) exRunning) = [40, 41] \<and>
   \<not> hasWork (mSnapApplicator (exRunning\<lparr>mSnapApplicator := Some \<lparr>remaining = []\<rparr>\<rparr>)) \<and>
   hasWork (mCurrApplicator (exRunning\<lparr>mSnapApplicator := Some \<lparr>remaining = []\<rparr>\<rparr>)) \<and>
   mCurrApplicator (onRun (exEnv (hexL 7) (hexL 171))
      (exRunning\<lparr>mSnapApplicator := Some \<lparr>remaining = []\<rparr>\<rparr>)) = Some \<lparr>remaining = []\<rparr> \<and>
   \<not> hasWork (mCurrApplicator exState) \<and>
   onRun (exEnv (hexL 7) (hexL 171)) exState = exState"
proof -
  let ?E = "exEnv (hexL 7) (hexL 171)"
  let ?R = "exRunning\<lparr>mSnapApplicator := Some \<lparr>remaining = []\<rparr>\<rparr>"
  have h1: "hasWork (mSnapApplicator exRunning)"
    by (simp add: exRunning_def exState_def hasWork_def applicatorBool_def)
  have a1: "mSnapApplicator exRunning = Some \<lparr>remaining = [40, 41, 42]\<rparr>"
    "mCurrApplicator exRunning = Some \<lparr>remaining = [30]\<rparr>" "database exRunning = []"
    by (simp_all add: exRunning_def exState_def)
  have c: "chunkSize ?E = 2" by (simp add: exEnv_def)
  have h2: "\<not> hasWork (mSnapApplicator ?R)" "hasWork (mCurrApplicator ?R)"
    by (simp_all add: exRunning_def exState_def hasWork_def applicatorBool_def)
  have a2: "mCurrApplicator ?R = Some \<lparr>remaining = [30]\<rparr>" "database ?R = []"
    by (simp_all add: exRunning_def exState_def)
  have h3: "\<not> hasWork (mSnapApplicator exState)" "\<not> hasWork (mCurrApplicator exState)"
    by (simp_all add: exState_def hasWork_def)
  from step_ordering [of exRunning ?E] h1
  obtain a where a: "mSnapApplicator exRunning = Some a"
    "mSnapApplicator (onRun ?E exRunning) = Some (fst (advance ?E a (database exRunning)))"
    "database (onRun ?E exRunning) = snd (advance ?E a (database exRunning))"
    "mCurrApplicator (onRun ?E exRunning) = mCurrApplicator exRunning"
    by blast
  from a(1) a1(1) have "a = \<lparr>remaining = [40, 41, 42]\<rparr>" by simp
  with a a1 c
  have r1: "mSnapApplicator (onRun ?E exRunning) = Some \<lparr>remaining = [42]\<rparr>"
    "mCurrApplicator (onRun ?E exRunning) = Some \<lparr>remaining = [30]\<rparr>"
    "database (onRun ?E exRunning) = [40, 41]"
    by (simp_all add: advance_def)
  from step_ordering [of ?R ?E] h2
  obtain b where b: "mCurrApplicator ?R = Some b"
    "mCurrApplicator (onRun ?E ?R) = Some (fst (advance ?E b (database ?R)))"
    by blast
  from b(1) a2(1) have "b = \<lparr>remaining = [30]\<rparr>" by simp
  with b c
  have r2: "mCurrApplicator (onRun ?E ?R) = Some \<lparr>remaining = []\<rparr>"
    by (simp add: advance_def)
  from step_ordering [of exState ?E] h3
  have r3: "onRun ?E exState = exState" by blast
  show ?thesis using h1 h2 h3 r1 r2 r3 by blast
qed

text \<open>
  C6 (reset safety): a reset puts the level cursor back to N - 1, clears the
  cascading-apply flag and drops the bucket references and the applicators in flight; it
  leaves every level of the live bucket list as it was.
\<close>

theorem reset_safety:
  assumes "0 < kNumLevels env"
  shows "mLevel (onReset env s) = kNumLevels env - 1 \<and>
         \<not> mApplying (onReset env s) \<and>
         mSnapBucket (onReset env s) = None \<and> mCurrBucket (onReset env s) = None \<and>
         mSnapApplicator (onReset env s) = None \<and> mCurrApplicator (onReset env s) = None \<and>
         bucketList (onReset env s) = bucketList s"
  using assms by (simp add: onReset_def size_t_dec_def)

theorem reset_safety_witness:
  "0 < kNumLevels (exEnv (hexL 7) (hexL 171)) \<and>
   mLevel (onReset (exEnv (hexL 7) (hexL 171)) exRunning) = 2 \<and>
   \<not> mApplying (onReset (exEnv (hexL 7) (hexL 171)) exRunning) \<and>
   mSnapBucket (onReset (exEnv (hexL 7) (hexL 171)) exRunning) = None \<and>
   mCurrApplicator (onReset (exEnv (hexL 7) (hexL 171)) exRunning) = None \<and>
   bucketList (onReset (exEnv (hexL 7) (hexL 171)) exRunning) = exLevels"
proof -
  have h: "0 < kNumLevels (exEnv (hexL 7) (hexL 171))" by (simp add: exEnv_def)
  show ?thesis
    using h reset_safety [OF h, of exRunning]
    by (simp add: exEnv_def exRunning_def exState_def)
qed

text \<open>
  C7 (no-op idempotence): when the target text of snap and of curr equals the rendering
  of the live hash at every level, a run from the reset state ends in success after
  exactly one round a level; the start and success meters, the bucket list, the database
  and the lookup trace are as before, the log has no starting line, no applicator exists
  at the end, and the target state has been installed.
\<close>

theorem noop_idempotence:
  assumes n: "0 < kNumLevels env"
    and len: "length (bucketList s) = kNumLevels env"
      "length (currentBuckets (mApplyState env)) = kNumLevels env"
    and same: "\<forall>l<kNumLevels env.
                 \<not> snapDiffers env (bucketList s) l \<and> \<not> currDiffers env (bucketList s) l"
  shows "\<exists>s'. run env (kNumLevels env) s = Some (Inr s') \<and>
           mBucketApplyStart s' = mBucketApplyStart s \<and>
           mBucketApplySuccess s' = mBucketApplySuccess s \<and>
           bucketList s' = bucketList s \<and> database s' = database s \<and>
           lookups s' = lookups s \<and>
           clog s' = clog s @ map StartingNextLevel (rev [0..<kNumLevels env - 1])
                            @ [DoneRestartingMerges] \<and>
           mSnapApplicator s' = None \<and> mCurrApplicator s' = None \<and> \<not> mApplying s' \<and>
           assumed s' = assumed s @ [mApplyState env]"
proof -
  let ?s0 = "onReset env s"
  let ?j = "kNumLevels env - 1"
  from n have j: "mLevel ?s0 = ?j" and sj: "Suc ?j = kNumLevels env"
    by (simp_all add: onReset_fields size_t_dec_def)
  have "drive env (Suc ?j) WORK_PENDING ?s0 =
     Some (Inr (?s0\<lparr>mLevel := 0,
                  clog := clog ?s0 @ map StartingNextLevel (rev [0..<?j]) @ [DoneRestartingMerges],
                  assumed := assumed ?s0 @ [mApplyState env]\<rparr>))"
    using n len same j
    by (intro noop_drive) (auto simp: onReset_fields)
  then have "run env (kNumLevels env) s =
     Some (Inr (?s0\<lparr>mLevel := 0,
                  clog := clog ?s0 @ map StartingNextLevel (rev [0..<?j]) @ [DoneRestartingMerges],
                  assumed := assumed ?s0 @ [mApplyState env]\<rparr>))"
    by (simp only: run_def sj)
  then show ?thesis by (simp add: onReset_def)
qed

theorem noop_idempotence_witness:
  "0 < kNumLevels (exEnv (hexL 5) (hexL 171)) \<and>
   length (bucketList exState) = kNumLevels (exEnv (hexL 5) (hexL 171)) \<and>
   \<not> snapDiffers (exEnv (hexL 5) (hexL 171)) (bucketList exState) 0 \<and>
   \<not> currDiffers (exEnv (hexL 5) (hexL 171)) (bucketList exState) 0 \<and>
   \<not> snapDiffers (exEnv (hexL 5) (hexL 171)) (bucketList exState) 1 \<and>
   \<not> currDiffers (exEnv (hexL 5) (hexL 171)) (bucketList exState) 1 \<and>
   \<not> snapDiffers (exEnv (hexL 5) (hexL 171)) (bucketList exState) 2 \<and>
   \<not> currDiffers (exEnv (hexL 5) (hexL 171)) (bucketList exState) 2 \<and>
   (\<exists>s'. run (exEnv (hexL 5) (hexL 171)) 3 exState = Some (Inr s') \<and>
      mBucketApplyStart s' = 0 \<and> mBucketApplySuccess s' = 0 \<and>
      bucketList s' = exLevels \<and> lookups s' = [] \<and>
      clog s' = [StartingNextLevel 1, StartingNextLevel 0, DoneRestartingMerges] \<and>
      assumed s' = [exTarget (hexL 5) (hexL 171)])"
proof -
  let ?E = "exEnv (hexL 5) (hexL 171)"
  have k: "kNumLevels ?E = 3" by (simp add: exEnv_def)
  have h1: "0 < kNumLevels ?E" by (simp add: k)
  have h2: "length (bucketList exState) = kNumLevels ?E" by code_simp
  have h3: "length (currentBuckets (mApplyState ?E)) = kNumLevels ?E" by code_simp
  have d: "\<not> snapDiffers ?E (bucketList exState) 0" "\<not> currDiffers ?E (bucketList exState) 0"
    "\<not> snapDiffers ?E (bucketList exState) 1" "\<not> currDiffers ?E (bucketList exState) 1"
    "\<not> snapDiffers ?E (bucketList exState) 2" "\<not> currDiffers ?E (bucketList exState) 2"
    by code_simp+
  have h4': "\<forall>l<3. \<not> snapDiffers ?E (bucketList exState) l \<and>
                   \<not> currDiffers ?E (bucketList exState) l"
  proof (intro allI impI)
    fix l :: nat assume "l < 3"
    then have "l = 0 \<or> l = 1 \<or> l = 2" by arith
    with d show "\<not> snapDiffers ?E (bucketList exState) l \<and>
                   \<not> currDiffers ?E (bucketList exState) l" by auto
  qed
  then have h4: "\<forall>l<kNumLevels ?E. \<not> snapDiffers ?E (bucketList exState) l \<and>
                   \<not> currDiffers ?E (bucketList exState) l" by (simp only: k)
  have f: "mBucketApplyStart exState = 0" "mBucketApplySuccess exState = 0"
    "bucketList exState = exLevels" "lookups exState = []" "clog exState = []"
    "assumed exState = []" "mApplyState ?E = exTarget (hexL 5) (hexL 171)"
    by (simp_all add: exState_def exEnv_def)
  have u: "rev [0..<(2::nat)] = [1, 0]" by code_simp
  from noop_idempotence [OF h1 h2 h3 h4]
  obtain s' where "run ?E (kNumLevels ?E) exState = Some (Inr s')"
    "mBucketApplyStart s' = mBucketApplyStart exState"
    "mBucketApplySuccess s' = mBucketApplySuccess exState"
    "bucketList s' = bucketList exState" "lookups s' = lookups exState"
    "clog s' = clog exState @ map StartingNextLevel (rev [0..<kNumLevels ?E - 1])
                            @ [DoneRestartingMerges]"
    "assumed s' = assumed exState @ [mApplyState ?E]"
    by blast
  then have "run ?E 3 exState = Some (Inr s') \<and>
      mBucketApplyStart s' = 0 \<and> mBucketApplySuccess s' = 0 \<and>
      bucketList s' = exLevels \<and> lookups s' = [] \<and>
      clog s' = [StartingNextLevel 1, StartingNextLevel 0, DoneRestartingMerges] \<and>
      assumed s' = [exTarget (hexL 5) (hexL 171)]"
    by (simp add: f u k)
  with h1 h2 d show ?thesis by blast
qed

text \<open>
  C8 (zero-hash sentinel): a hash text that decodes to the all-zero hash resolves to the
  canonical empty bucket, with no lookup in the pool or in the store, whatever they hold.
\<close>

theorem zero_hash_sentinel:
  assumes "hexToBin256 env hash = Some bin" and "isZero bin"
  shows "getBucket env hash = ([], Inr emptyBucket) \<and>
         (\<forall>pool store. getBucket (env\<lparr>mBuckets := pool, getBucketByHash := store\<rparr>) hash
                          = ([], Inr emptyBucket)) \<and>
         isZero (getHash (emptyBucket :: 'e Bucket)) \<and>
         getEntries (emptyBucket :: 'e Bucket) = []"
  using assms by (simp add: getBucket_def emptyBucket_def isZero_def)

theorem zero_hash_sentinel_witness:
  "hexToBin256 ((exEnv (hexL 5) (hexL 0))\<lparr>mBuckets := [hexL 0 \<mapsto> Some (bkt 0 [1])]\<rparr>) (hexL 0) = Some 0 \<and>
   isZero 0 \<and>
   mBuckets ((exEnv (hexL 5) (hexL 0))\<lparr>mBuckets := [hexL 0 \<mapsto> Some (bkt 0 [1])]\<rparr>) (hexL 0) = Some (Some (bkt 0 [1])) \<and>
   getBucket ((exEnv (hexL 5) (hexL 0))\<lparr>mBuckets := [hexL 0 \<mapsto> Some (bkt 0 [1])]\<rparr>) (hexL 0)
     = ([], Inr emptyBucket)"
proof -
  let ?E = "(exEnv (hexL 5) (hexL 0))\<lparr>mBuckets := [hexL 0 \<mapsto> Some (bkt 0 [1])]\<rparr>"
  have h1: "hexToBin256 ?E (hexL 0) = Some 0" by code_simp
  have h2: "isZero 0" by (simp add: isZero_def)
  have h3: "mBuckets ?E (hexL 0) = Some (Some (bkt 0 [1]))" by (simp add: exEnv_def)
  show ?thesis using h1 h2 h3 zero_hash_sentinel [OF h1 h2] by blast
qed

text \<open>
  C9 (scenario B): with three levels, where only the curr text of level 2 differs from
  the live structure, and the five buckets to install resolve, a run ends in success
  with five start and five success events; the log names the starts (curr of level 2,
  then snap and curr of level 1, then snap and curr of level 0), and at the end levels 0
  and 1 hold the resolved buckets while level 2 holds the resolved curr and its old snap.
\<close>

theorem scenario_B:
  assumes c: "0 < chunkSize env"
    and k: "kNumLevels env = 3"
    and len: "length (bucketList s) = 3" "length (currentBuckets (mApplyState env)) = 3"
    and d2: "\<not> snapDiffers env (bucketList s) 2" "currDiffers env (bucketList s) 2"
    and d1: "\<not> snapDiffers env (bucketList s) 1" "\<not> currDiffers env (bucketList s) 1"
    and d0: "\<not> snapDiffers env (bucketList s) 0" "\<not> currDiffers env (bucketList s) 0"
    and res2: "resolves env (curr (currentBuckets (mApplyState env) ! 2)) c2"
    and res1: "resolves env (snap (currentBuckets (mApplyState env) ! 1)) s1"
      "resolves env (curr (currentBuckets (mApplyState env) ! 1)) c1"
    and res0: "resolves env (snap (currentBuckets (mApplyState env) ! 0)) s0"
      "resolves env (curr (currentBuckets (mApplyState env) ! 0)) c0"
  shows "\<exists>fuel s'. run env fuel s = Some (Inr s') \<and>
           mBucketApplyStart s' = mBucketApplyStart s + 5 \<and>
           mBucketApplySuccess s' = mBucketApplySuccess s + 5 \<and>
           bucketList s' =
             [\<lparr>getCurr = c0, getSnap = s0\<rparr>,
              \<lparr>getCurr = c1, getSnap = s1\<rparr>,
              \<lparr>getCurr = c2, getSnap = getSnap (bucketList s ! 2)\<rparr>] \<and>
           clog s' = clog s @
             [StartingCurr 2 (curr (currentBuckets (mApplyState env) ! 2)),
              StartingNextLevel 1,
              StartingSnap 1 (snap (currentBuckets (mApplyState env) ! 1)),
              StartingCurr 1 (curr (currentBuckets (mApplyState env) ! 1)),
              StartingNextLevel 0,
              StartingSnap 0 (snap (currentBuckets (mApplyState env) ! 0)),
              StartingCurr 0 (curr (currentBuckets (mApplyState env) ! 0)),
              DoneRestartingMerges] \<and>
           assumed s' = assumed s @ [mApplyState env]"
proof -
  let ?t = "currentBuckets (mApplyState env)"
  let ?z = "onReset env s"
  note z = onReset_fields[of env s]
  have lz: "mLevel ?z = 2" by (simp add: z k size_t_dec_def)
  \<comment> \<open>level 2\<close>
  have rA: "mLevel ?z < length (bucketList ?z)" "mLevel ?z < length ?t"
    by (simp_all add: lz z len)
  have "\<exists>ws sa. oneLevel env ?z = Inr (ws, sa)"
    using d2 res2 z(2) by (intro oneLevel_total[OF rA]) (auto simp: lz z)
  then obtain wsA sA where olA: "oneLevel env ?z = Inr (wsA, sA)" by blast
  note eA = oneLevel_effect[OF olA z(1) rA, unfolded lz z]
  have wA: "wsA = WORK_PENDING" and lA: "mLevel sA = 1" and iA: "idle sA"
    and aA: "mApplying sA" and nA: "length (bucketList sA) = 3"
    using eA(1,2,3,4,5) d2 len by simp_all
  have bA: "bucketList sA ! 0 = bucketList s ! 0" "bucketList sA ! 1 = bucketList s ! 1"
    using eA(6) by simp_all
  have gA: "getSnap (bucketList sA ! 2) = getSnap (bucketList s ! 2)"
    "getCurr (bucketList sA ! 2) = c2"
    using eA(8) eA(9) d2 z(2) res2 by (auto intro: resolves_unique)
  have mA: "mBucketApplyStart sA = mBucketApplyStart s + 1"
    "mBucketApplySuccess sA = mBucketApplySuccess s + 1" "assumed sA = assumed s"
    "clog sA = clog s @ [StartingCurr 2 (curr (?t ! 2)), StartingNextLevel 1]"
    using eA(11,12,14,15) d2 z(2) by simp_all
  \<comment> \<open>level 1\<close>
  have rB: "mLevel sA < length (bucketList sA)" "mLevel sA < length ?t"
    by (simp_all add: lA nA len)
  have "\<exists>ws sb. oneLevel env sA = Inr (ws, sb)"
    using res1 by (intro oneLevel_total[OF rB]) (auto simp: lA)
  then obtain wsB sB where olB: "oneLevel env sA = Inr (wsB, sB)" by blast
  note eB = oneLevel_effect[OF olB iA rB, unfolded lA]
  have wB: "wsB = WORK_PENDING" and lB: "mLevel sB = 0" and iB: "idle sB"
    and aB: "mApplying sB" and nB: "length (bucketList sB) = 3"
    using eB(1,2,3,4,5) aA nA by simp_all
  have bB: "bucketList sB ! 0 = bucketList sA ! 0" "bucketList sB ! 2 = bucketList sA ! 2"
    using eB(6) by simp_all
  have gB: "getSnap (bucketList sB ! 1) = s1" "getCurr (bucketList sB ! 1) = c1"
    using eB(7) eB(9) aA res1 by (auto intro: resolves_unique)
  have mB: "mBucketApplyStart sB = mBucketApplyStart sA + 2"
    "mBucketApplySuccess sB = mBucketApplySuccess sA + 2" "assumed sB = assumed sA"
    "clog sB = clog sA @ [StartingSnap 1 (snap (?t ! 1)), StartingCurr 1 (curr (?t ! 1)),
                          StartingNextLevel 0]"
    using eB(11,12,14,15) aA by simp_all
  \<comment> \<open>level 0\<close>
  have rC: "mLevel sB < length (bucketList sB)" "mLevel sB < length ?t"
    by (simp_all add: lB nB len)
  have "\<exists>ws sc. oneLevel env sB = Inr (ws, sc)"
    using res0 by (intro oneLevel_total[OF rC]) (auto simp: lB)
  then obtain wsC sC where olC: "oneLevel env sB = Inr (wsC, sC)" by blast
  note eC = oneLevel_effect[OF olC iB rC, unfolded lB]
  have wC: "wsC = WORK_SUCCESS" and nC: "length (bucketList sC) = 3"
    using eC(1,5) nB by simp_all
  have bC: "bucketList sC ! 1 = bucketList sB ! 1" "bucketList sC ! 2 = bucketList sB ! 2"
    using eC(6) by simp_all
  have gC: "getSnap (bucketList sC ! 0) = s0" "getCurr (bucketList sC ! 0) = c0"
    using eC(7) eC(9) aB res0 by (auto intro: resolves_unique)
  have mC: "mBucketApplyStart sC = mBucketApplyStart sB + 2"
    "mBucketApplySuccess sC = mBucketApplySuccess sB + 2"
    "assumed sC = assumed sB @ [mApplyState env]"
    "clog sC = clog sB @ [StartingSnap 0 (snap (?t ! 0)), StartingCurr 0 (curr (?t ! 0)),
                          DoneRestartingMerges]"
    using eC(11,12,14,15) aB by simp_all
  \<comment> \<open>the run\<close>
  have "levels env (Suc (Suc (Suc 0))) ?z = Some (Inr sC)"
    using olA olB olC wA wB wC by (simp add: levels_step levels_last del: levels.simps)
  from levels_run[OF c this] obtain fuel where r: "run env fuel s = Some (Inr sC)" by blast
  have l0: "bucketList sC ! 0 = \<lparr>getCurr = c0, getSnap = s0\<rparr>"
    using gC by (intro BucketLevel.equality) simp_all
  have l1: "bucketList sC ! 1 = \<lparr>getCurr = c1, getSnap = s1\<rparr>"
    using gB bC by (intro BucketLevel.equality) simp_all
  have l2: "bucketList sC ! 2 = \<lparr>getCurr = c2, getSnap = getSnap (bucketList s ! 2)\<rparr>"
    using gA bB bC by (intro BucketLevel.equality) simp_all
  have bl: "bucketList sC =
             [\<lparr>getCurr = c0, getSnap = s0\<rparr>,
              \<lparr>getCurr = c1, getSnap = s1\<rparr>,
              \<lparr>getCurr = c2, getSnap = getSnap (bucketList s ! 2)\<rparr>]"
  proof (rule nth_equalityI)
    show "length (bucketList sC) = length [\<lparr>getCurr = c0, getSnap = s0\<rparr>,
              \<lparr>getCurr = c1, getSnap = s1\<rparr>,
              \<lparr>getCurr = c2, getSnap = getSnap (bucketList s ! 2)\<rparr>]"
      using nC by simp
  next
    fix i assume "i < length (bucketList sC)"
    with nC have "i = 0 \<or> i = 1 \<or> i = 2" by arith
    with l0 l1 l2 show "bucketList sC ! i = [\<lparr>getCurr = c0, getSnap = s0\<rparr>,
              \<lparr>getCurr = c1, getSnap = s1\<rparr>,
              \<lparr>getCurr = c2, getSnap = getSnap (bucketList s ! 2)\<rparr>] ! i"
      by auto
  qed
  have st: "mBucketApplyStart sC = mBucketApplyStart s + 5"
    and su: "mBucketApplySuccess sC = mBucketApplySuccess s + 5"
    and as: "assumed sC = assumed s @ [mApplyState env]"
    and lg: "clog sC = clog s @
             [StartingCurr 2 (curr (?t ! 2)),
              StartingNextLevel 1,
              StartingSnap 1 (snap (?t ! 1)),
              StartingCurr 1 (curr (?t ! 1)),
              StartingNextLevel 0,
              StartingSnap 0 (snap (?t ! 0)),
              StartingCurr 0 (curr (?t ! 0)),
              DoneRestartingMerges]"
    using mA mB mC by simp_all
  from r st su bl lg as show ?thesis by blast
qed


theorem scenario_B_witness:
  "0 < chunkSize (exEnv (hexL 7) (hexL 171)) \<and> kNumLevels (exEnv (hexL 7) (hexL 171)) = 3 \<and>
   \<not> snapDiffers (exEnv (hexL 7) (hexL 171)) (bucketList exState) 2 \<and>
   currDiffers (exEnv (hexL 7) (hexL 171)) (bucketList exState) 2 \<and>
   \<not> snapDiffers (exEnv (hexL 7) (hexL 171)) (bucketList exState) 1 \<and>
   \<not> currDiffers (exEnv (hexL 7) (hexL 171)) (bucketList exState) 1 \<and>
   \<not> snapDiffers (exEnv (hexL 7) (hexL 171)) (bucketList exState) 0 \<and>
   \<not> currDiffers (exEnv (hexL 7) (hexL 171)) (bucketList exState) 0 \<and>
   (\<exists>fuel s'. run (exEnv (hexL 7) (hexL 171)) fuel exState = Some (Inr s') \<and>
      mBucketApplyStart s' = 5 \<and> mBucketApplySuccess s' = 5 \<and>
      bucketList s' =
        [\<lparr>getCurr = bkt 1 [10], getSnap = bkt 2 [20, 21]\<rparr>,
         \<lparr>getCurr = bkt 3 [30], getSnap = bkt 4 [40, 41, 42]\<rparr>,
         \<lparr>getCurr = bkt 7 [70, 71, 72], getSnap = bkt 171 [60]\<rparr>] \<and>
      clog s' =
        [StartingCurr 2 (hexL 7), StartingNextLevel 1,
         StartingSnap 1 (hexL 4), StartingCurr 1 (hexL 3), StartingNextLevel 0,
         StartingSnap 0 (hexL 2), StartingCurr 0 (hexL 1), DoneRestartingMerges])"
proof -
  let ?E = "exEnv (hexL 7) (hexL 171)"
  let ?t = "currentBuckets (mApplyState ?E)"
  have c: "0 < chunkSize ?E" by code_simp
  have k: "kNumLevels ?E = 3" by code_simp
  have len: "length (bucketList exState) = 3" "length ?t = 3" by code_simp+
  have d2: "\<not> snapDiffers ?E (bucketList exState) 2" "currDiffers ?E (bucketList exState) 2"
    by code_simp+
  have d1: "\<not> snapDiffers ?E (bucketList exState) 1" "\<not> currDiffers ?E (bucketList exState) 1"
    by code_simp+
  have d0: "\<not> snapDiffers ?E (bucketList exState) 0" "\<not> currDiffers ?E (bucketList exState) 0"
    by code_simp+
  have res2: "resolves ?E (curr (?t ! 2)) (bkt 7 [70, 71, 72])" by code_simp
  have res1: "resolves ?E (snap (?t ! 1)) (bkt 4 [40, 41, 42])"
    "resolves ?E (curr (?t ! 1)) (bkt 3 [30])" by code_simp+
  have res0: "resolves ?E (snap (?t ! 0)) (bkt 2 [20, 21])"
    "resolves ?E (curr (?t ! 0)) (bkt 1 [10])" by code_simp+
  have t: "curr (?t ! 2) = hexL 7" "snap (?t ! 1) = hexL 4" "curr (?t ! 1) = hexL 3"
    "snap (?t ! 0) = hexL 2" "curr (?t ! 0) = hexL 1" by code_simp+
  have f: "mBucketApplyStart exState = 0" "mBucketApplySuccess exState = 0"
    "clog exState = []" "getSnap (bucketList exState ! 2) = bkt 171 [60]" by code_simp+
  from scenario_B [OF c k len d2 d1 d0 res2 res1 res0]
  have "\<exists>fuel s'. run ?E fuel exState = Some (Inr s') \<and>
      mBucketApplyStart s' = 5 \<and> mBucketApplySuccess s' = 5 \<and>
      bucketList s' =
        [\<lparr>getCurr = bkt 1 [10], getSnap = bkt 2 [20, 21]\<rparr>,
         \<lparr>getCurr = bkt 3 [30], getSnap = bkt 4 [40, 41, 42]\<rparr>,
         \<lparr>getCurr = bkt 7 [70, 71, 72], getSnap = bkt 171 [60]\<rparr>] \<and>
      clog s' =
        [StartingCurr 2 (hexL 7), StartingNextLevel 1,
         StartingSnap 1 (hexL 4), StartingCurr 1 (hexL 3), StartingNextLevel 0,
         StartingSnap 0 (hexL 2), StartingCurr 0 (hexL 1), DoneRestartingMerges]"
    unfolding t f by simp blast
  with c k d2 d1 d0 show ?thesis by blast
qed

text \<open>
  C10 (hash equality is equality of hex text): at a start of level with the flag not yet
  set, snap is started exactly when the target's snap text differs, as a string, from the
  hex rendering of the live snap hash, and curr exactly when snap was started or the curr
  texts differ; the pool is asked for the text itself, so an entry under any other key
  makes no difference, and on a miss the store is asked for the decoded binary hash.
  Hence a target text that decodes to the live binary hash but is not its rendering is
  a mismatch, and with no pool entry under that very text the bucket comes from the store.
\<close>

theorem hex_text_equality:
  "(\<forall>s s1. mLevel s < length (bucketList s) \<and>
            mLevel s < length (currentBuckets (mApplyState env)) \<and>
            \<not> mApplying s \<and> idle s \<and> onStart env s = Inr s1 \<longrightarrow>
      (mSnapBucket s1 \<noteq> None) =
        (snap (currentBuckets (mApplyState env) ! mLevel s)
           \<noteq> binToHex env (getHash (getSnap (bucketList s ! mLevel s)))) \<and>
      (mCurrBucket s1 \<noteq> None) =
        (snap (currentBuckets (mApplyState env) ! mLevel s)
           \<noteq> binToHex env (getHash (getSnap (bucketList s ! mLevel s))) \<or>
         curr (currentBuckets (mApplyState env) ! mLevel s)
           \<noteq> binToHex env (getHash (getCurr (bucketList s ! mLevel s))))) \<and>
   (\<forall>hash bin. hexToBin256 env hash = Some bin \<and> \<not> isZero bin \<longrightarrow>
      getBucket env hash =
        (case mBuckets env hash of
           Some p \<Rightarrow> ([PoolFind hash],
                      (case p of Some b \<Rightarrow> Inr b | None \<Rightarrow> Inl MissingBucketError))
         | None \<Rightarrow> ([PoolFind hash, StoreGet bin],
                    (case getBucketByHash env bin of
                       Some b \<Rightarrow> Inr b | None \<Rightarrow> Inl MissingBucketError))) \<and>
      (\<forall>k b. k \<noteq> hash \<longrightarrow>
         getBucket (env\<lparr>mBuckets := (mBuckets env)(k \<mapsto> b)\<rparr>) hash = getBucket env hash)) \<and>
   (\<forall>s s1 b. mLevel s < length (bucketList s) \<and>
            mLevel s < length (currentBuckets (mApplyState env)) \<and>
            \<not> mApplying s \<and> idle s \<and> onStart env s = Inr s1 \<and>
            hexToBin256 env (snap (currentBuckets (mApplyState env) ! mLevel s))
              = Some (getHash (getSnap (bucketList s ! mLevel s))) \<and>
            \<not> isZero (getHash (getSnap (bucketList s ! mLevel s))) \<and>
            snap (currentBuckets (mApplyState env) ! mLevel s)
              \<noteq> binToHex env (getHash (getSnap (bucketList s ! mLevel s))) \<and>
            mBuckets env (snap (currentBuckets (mApplyState env) ! mLevel s)) = None \<and>
            getBucketByHash env (getHash (getSnap (bucketList s ! mLevel s))) = Some b \<longrightarrow>
      mSnapBucket s1 = Some b \<and> mApplying s1 \<and>
      take 2 (drop (length (lookups s)) (lookups s1)) =
        [PoolFind (snap (currentBuckets (mApplyState env) ! mLevel s)),
         StoreGet (getHash (getSnap (bucketList s ! mLevel s)))])"
proof -
  have A: "(mSnapBucket s1 \<noteq> None) =
        (snap (currentBuckets (mApplyState env) ! mLevel s)
           \<noteq> binToHex env (getHash (getSnap (bucketList s ! mLevel s)))) \<and>
      (mCurrBucket s1 \<noteq> None) =
        (snap (currentBuckets (mApplyState env) ! mLevel s)
           \<noteq> binToHex env (getHash (getSnap (bucketList s ! mLevel s))) \<or>
         curr (currentBuckets (mApplyState env) ! mLevel s)
           \<noteq> binToHex env (getHash (getCurr (bucketList s ! mLevel s))))"
    if r1: "mLevel s < length (bucketList s)"
      and r2: "mLevel s < length (currentBuckets (mApplyState env))"
      and na: "\<not> mApplying s" and idle: "idle s" and st: "onStart env s = Inr s1"
    for s s1 :: "'a state"
  proof -
    note ef = onStart_effect[OF st r1 r2]
    from idle have n: "mSnapBucket s = None" "mCurrBucket s = None"
      by (simp_all add: idle_def)
    show ?thesis
      using ef(2) ef(3) ef(4) ef(5) n na
      unfolding snapDiffers_def currDiffers_def by auto
  qed
  have B: "getBucket env hash =
        (case mBuckets env hash of
           Some p \<Rightarrow> ([PoolFind hash],
                      (case p of Some b \<Rightarrow> Inr b | None \<Rightarrow> Inl MissingBucketError))
         | None \<Rightarrow> ([PoolFind hash, StoreGet bin],
                    (case getBucketByHash env bin of
                       Some b \<Rightarrow> Inr b | None \<Rightarrow> Inl MissingBucketError))) \<and>
      (\<forall>k b. k \<noteq> hash \<longrightarrow>
         getBucket (env\<lparr>mBuckets := (mBuckets env)(k \<mapsto> b)\<rparr>) hash = getBucket env hash)"
    if "hexToBin256 env hash = Some bin" "\<not> isZero bin" for hash bin
    using that by (simp add: getBucket_def split: option.splits)
  have C: "mSnapBucket s1 = Some b \<and> mApplying s1 \<and>
      take 2 (drop (length (lookups s)) (lookups s1)) =
        [PoolFind (snap (currentBuckets (mApplyState env) ! mLevel s)),
         StoreGet (getHash (getSnap (bucketList s ! mLevel s)))]"
    if r1: "mLevel s < length (bucketList s)"
      and r2: "mLevel s < length (currentBuckets (mApplyState env))"
      and na: "\<not> mApplying s" and idle: "idle s" and st: "onStart env s = Inr s1"
      and dec: "hexToBin256 env (snap (currentBuckets (mApplyState env) ! mLevel s))
              = Some (getHash (getSnap (bucketList s ! mLevel s)))"
      and nz: "\<not> isZero (getHash (getSnap (bucketList s ! mLevel s)))"
      and ne: "snap (currentBuckets (mApplyState env) ! mLevel s)
              \<noteq> binToHex env (getHash (getSnap (bucketList s ! mLevel s)))"
      and miss: "mBuckets env (snap (currentBuckets (mApplyState env) ! mLevel s)) = None"
      and store: "getBucketByHash env (getHash (getSnap (bucketList s ! mLevel s))) = Some b"
    for s s1 :: "'a state" and b
  proof -
    note ef = onStart_effect[OF st r1 r2]
    have tS: "mApplying s \<or> snapDiffers env (bucketList s) (mLevel s)"
      using ne by (simp add: snapDiffers_def)
    have g: "getBucket env (snap (currentBuckets (mApplyState env) ! mLevel s)) =
               ([PoolFind (snap (currentBuckets (mApplyState env) ! mLevel s)),
                 StoreGet (getHash (getSnap (bucketList s ! mLevel s)))], Inr b)"
      using getBucket_nonzero[OF dec nz] miss store by simp
    from ef(2)[OF tS] g have sb: "mSnapBucket s1 = Some b" by (auto simp: resolves_def)
    from ef(1) tS have ap: "mApplying s1" by simp
    from ef(8) tS g have
      "take 2 (drop (length (lookups s)) (lookups s1)) =
        [PoolFind (snap (currentBuckets (mApplyState env) ! mLevel s)),
         StoreGet (getHash (getSnap (bucketList s ! mLevel s)))]"
      by simp
    with sb ap show ?thesis by simp
  qed
  from A B C show ?thesis by blast
qed


theorem hex_text_equality_witness:
  "hexToBin256 ((exEnv (hexL 5) (hexU 171))\<lparr>mBuckets := exPool(hexL 171 \<mapsto> Some (bkt 171 [61]))\<rparr>)
     (hexU 171) = Some 171 \<and>
   binToHex ((exEnv (hexL 5) (hexU 171))\<lparr>mBuckets := exPool(hexL 171 \<mapsto> Some (bkt 171 [61]))\<rparr>) 171
     = hexL 171 \<and>
   hexU 171 \<noteq> hexL 171 \<and>
   mBuckets ((exEnv (hexL 5) (hexU 171))\<lparr>mBuckets := exPool(hexL 171 \<mapsto> Some (bkt 171 [61]))\<rparr>)
     (hexL 171) = Some (Some (bkt 171 [61])) \<and>
   getBucket ((exEnv (hexL 5) (hexU 171))\<lparr>mBuckets := exPool(hexL 171 \<mapsto> Some (bkt 171 [61]))\<rparr>)
     (hexU 171) = ([PoolFind (hexU 171), StoreGet 171], Inr (bkt 171 [60])) \<and>
   getBucket ((exEnv (hexL 5) (hexU 171))\<lparr>mBuckets := exPool(hexL 171 \<mapsto> Some (bkt 171 [61]))\<rparr>)
     (hexL 171) = ([PoolFind (hexL 171)], Inr (bkt 171 [61])) \<and>
   (\<exists>s1. onStart ((exEnv (hexL 5) (hexU 171))\<lparr>mBuckets := exPool(hexL 171 \<mapsto> Some (bkt 171 [61]))\<rparr>)
           exState = Inr s1 \<and>
         mSnapBucket s1 = Some (bkt 171 [60]) \<and> mSnapBucket s1 \<noteq> None \<and> mApplying s1 \<and>
         take 2 (drop (length (lookups exState)) (lookups s1))
           = [PoolFind (hexU 171), StoreGet 171])"
proof -
  let ?E = "(exEnv (hexL 5) (hexU 171))\<lparr>mBuckets := exPool(hexL 171 \<mapsto> Some (bkt 171 [61]))\<rparr>"
  let ?i = "currentBuckets (mApplyState ?E) ! mLevel exState"
  let ?lv = "bucketList exState ! mLevel exState"
  have h1: "hexToBin256 ?E (hexU 171) = Some 171" by code_simp
  have h1': "hexToBin256 ?E (hexL 171) = Some 171" by code_simp
  have h2: "binToHex ?E 171 = hexL 171" by code_simp
  have h3: "hexU 171 \<noteq> hexL 171" by code_simp
  have h4: "mBuckets ?E (hexL 171) = Some (Some (bkt 171 [61]))" by code_simp
  have h5: "mBuckets ?E (hexU 171) = None" by code_simp
  have h6: "getBucketByHash ?E 171 = Some (bkt 171 [60])" by code_simp
  have h7: "\<not> isZero 171" by (simp add: isZero_def)
  have r1: "mLevel exState < length (bucketList exState)" by code_simp
  have r2: "mLevel exState < length (currentBuckets (mApplyState ?E))" by code_simp
  have na: "\<not> mApplying exState" by code_simp
  have idle: "idle exState" by code_simp
  have "case onStart ?E exState of Inr s1 \<Rightarrow> True | Inl e \<Rightarrow> False" by code_simp
  then obtain s1 where st: "onStart ?E exState = Inr s1" by (auto split: sum.splits)
  have sn: "snap ?i = hexU 171" by code_simp
  have hs: "getHash (getSnap ?lv) = 171" by code_simp
  have dec: "hexToBin256 ?E (snap ?i) = Some (getHash (getSnap ?lv))" by code_simp
  have nz: "\<not> isZero (getHash (getSnap ?lv))" by code_simp
  have ne: "snap ?i \<noteq> binToHex ?E (getHash (getSnap ?lv))" by code_simp
  have miss: "mBuckets ?E (snap ?i) = None" by code_simp
  have store: "getBucketByHash ?E (getHash (getSnap ?lv)) = Some (bkt 171 [60])" by code_simp
  note T = hex_text_equality [of ?E]
  from T [THEN conjunct2, THEN conjunct2, rule_format, of exState s1 "bkt 171 [60]"]
    r1 r2 na idle st dec nz ne miss store
  have c: "mSnapBucket s1 = Some (bkt 171 [60]) \<and> mApplying s1 \<and>
      take 2 (drop (length (lookups exState)) (lookups s1)) = [PoolFind (snap ?i), StoreGet (getHash (getSnap ?lv))]"
    by blast
  from T [THEN conjunct1, rule_format, of exState s1] r1 r2 na idle st ne
  have d: "mSnapBucket s1 \<noteq> None" by blast
  from T [THEN conjunct2, THEN conjunct1, rule_format, of "hexU 171" 171, THEN conjunct1] h1 h7
  have "getBucket ?E (hexU 171) =
          (case mBuckets ?E (hexU 171) of
             Some p \<Rightarrow> ([PoolFind (hexU 171)],
                        (case p of Some b \<Rightarrow> Inr b | None \<Rightarrow> Inl MissingBucketError))
           | None \<Rightarrow> ([PoolFind (hexU 171), StoreGet 171],
                      (case getBucketByHash ?E 171 of
                         Some b \<Rightarrow> Inr b | None \<Rightarrow> Inl MissingBucketError)))"
    by blast
  then have e: "getBucket ?E (hexU 171) = ([PoolFind (hexU 171), StoreGet 171], Inr (bkt 171 [60]))"
    by (simp only: h5 h6 option.case)
  from T [THEN conjunct2, THEN conjunct1, rule_format, of "hexL 171" 171, THEN conjunct1] h1' h7
  have "getBucket ?E (hexL 171) =
          (case mBuckets ?E (hexL 171) of
             Some p \<Rightarrow> ([PoolFind (hexL 171)],
                        (case p of Some b \<Rightarrow> Inr b | None \<Rightarrow> Inl MissingBucketError))
           | None \<Rightarrow> ([PoolFind (hexL 171), StoreGet 171],
                      (case getBucketByHash ?E 171 of
                         Some b \<Rightarrow> Inr b | None \<Rightarrow> Inl MissingBucketError)))"
    by blast
  then have f: "getBucket ?E (hexL 171) = ([PoolFind (hexL 171)], Inr (bkt 171 [61]))"
    by (simp only: h4 option.case)
  from c d e f sn hs st h1 h2 h3 h4 show ?thesis by auto
qed

end
